theory Spec2Isabelle
  imports Main
begin

section \<open>Strings\<close>

text \<open>
  Python strings are modelled as \<open>string\<close>; a character is one code point below 256.
  The helpers below are the Python string operations that \<open>context.py\<close> uses.
\<close>

definition endswith :: "string \<Rightarrow> string \<Rightarrow> bool" where
  \<comment> \<open>\<open>s.endswith(suf)\<close>\<close>
  "endswith s suf = (length suf \<le> length s \<and> drop (length s - length suf) s = suf)"

definition startswith :: "string \<Rightarrow> string \<Rightarrow> bool" where
  \<comment> \<open>\<open>s.startswith(pre)\<close>\<close>
  "startswith s pre = (take (length pre) s = pre)"

fun contains :: "string \<Rightarrow> string \<Rightarrow> bool" where
  \<comment> \<open>\<open>sub in s\<close>\<close>
  "contains [] sub = (sub = [])"
| "contains (c # cs) sub = (startswith (c # cs) sub \<or> contains cs sub)"

fun split_on :: "char \<Rightarrow> string \<Rightarrow> string list" where
  \<comment> \<open>\<open>s.split(sep)\<close> for a one-character separator: never the empty list\<close>
  "split_on sep [] = [[]]"
| "split_on sep (c # cs) =
     (if c = sep then [] # split_on sep cs
      else (case split_on sep cs of
              [] \<Rightarrow> [[c]]
            | p # ps \<Rightarrow> (c # p) # ps))"

fun join_with :: "string \<Rightarrow> string list \<Rightarrow> string" where
  \<comment> \<open>\<open>sep.join(parts)\<close>\<close>
  "join_with sep [] = []"
| "join_with sep [p] = p"
| "join_with sep (p # q # ps) = p @ sep @ join_with sep (q # ps)"

definition is_space :: "char \<Rightarrow> bool" where
  \<comment> \<open>\<open>\s\<close> of a str pattern, and \<open>str.isspace\<close>, on code points below 256\<close>
  "is_space ch = (let n = (of_char ch :: int) in
     (9 \<le> n \<and> n \<le> 13) \<or> (28 \<le> n \<and> n \<le> 32) \<or> n = 133 \<or> n = 160)"

definition is_ident_start :: "char \<Rightarrow> bool" where
  \<comment> \<open>\<open>[A-Za-z_]\<close>\<close>
  "is_ident_start ch = (let n = (of_char ch :: int) in
     (65 \<le> n \<and> n \<le> 90) \<or> (97 \<le> n \<and> n \<le> 122) \<or> n = 95)"

definition is_ident_char :: "char \<Rightarrow> bool" where
  \<comment> \<open>\<open>[A-Za-z0-9_]\<close>\<close>
  "is_ident_char ch = (let n = (of_char ch :: int) in
     (65 \<le> n \<and> n \<le> 90) \<or> (97 \<le> n \<and> n \<le> 122) \<or> (48 \<le> n \<and> n \<le> 57) \<or> n = 95)"

definition is_word :: "char \<Rightarrow> bool" where
  \<comment> \<open>\<open>\w\<close> of a str pattern on code points below 256: alphanumeric or underscore\<close>
  "is_word ch = (let n = (of_char ch :: int) in
     is_ident_char ch \<or> n = 170 \<or> n = 178 \<or> n = 179 \<or> n = 181 \<or> n = 185 \<or> n = 186
     \<or> (188 \<le> n \<and> n \<le> 190) \<or> (192 \<le> n \<and> n \<le> 214) \<or> (216 \<le> n \<and> n \<le> 246)
     \<or> 248 \<le> n)"

definition strip :: "string \<Rightarrow> string" where
  \<comment> \<open>\<open>s.strip()\<close>\<close>
  "strip s = rev (dropWhile is_space (rev (dropWhile is_space s)))"

definition to_lower :: "char \<Rightarrow> char" where
  "to_lower ch = (let n = (of_char ch :: int) in
     if 65 \<le> n \<and> n \<le> 90 then char_of (n + 32) else ch)"

function re_split_class :: "(char \<Rightarrow> bool) \<Rightarrow> string \<Rightarrow> string \<Rightarrow> string list" where
  \<comment> \<open>\<open>re.split(r'[...]+', s)\<close> for a character class: the pieces between the maximal
      runs of separator characters, an empty piece where \<open>s\<close> starts or ends with a run\<close>
  "re_split_class P [] cur = [cur]"
| "re_split_class P (c # cs) cur =
     (if P c then cur # re_split_class P (dropWhile P cs) []
      else re_split_class P cs (cur @ [c]))"
  by pat_completeness auto
termination
  by (relation "measure (\<lambda>(P, s, cur). length s)")
     (auto simp: length_dropWhile_le less_Suc_eq_le)

fun digit_char :: "nat \<Rightarrow> char" where
  "digit_char n = char_of (48 + n mod 10)"

function show_nat :: "nat \<Rightarrow> string" where
  \<comment> \<open>\<open>str(n)\<close> for a non-negative integer\<close>
  "show_nat n = (if n < 10 then [digit_char n] else show_nat (n div 10) @ [digit_char n])"
  by pat_completeness auto
termination
  by (relation "measure id") auto

section \<open>Regular expressions\<close>

text \<open>
  The part of Python's \<open>re\<close> that the patterns of \<open>context.py\<close> use, as a backtracking
  matcher. \<open>ms r s i c\<close> lists every way \<open>r\<close> matches \<open>s\<close> from index \<open>i\<close>, as the end
  index and the capture groups, in the order in which the backtracking engine tries them;
  the head is the match that \<open>re\<close> reports. An iteration of a star that consumes nothing
  is not repeated; no star of these patterns has a body that can match the empty string.
\<close>

datatype rx =
    Eps
  | Sym "char \<Rightarrow> bool"
  | Lit string
  | Seq rx rx
  | Alt rx rx
  | Opt rx
  | Star rx
  | LazyStar rx
  | Grp nat rx
  | WordB
  | Bol
  | Eol

type_synonym caps = "(nat \<times> nat \<times> nat) list"

definition word_at :: "string \<Rightarrow> nat \<Rightarrow> bool" where
  "word_at s i = (i < length s \<and> is_word (s ! i))"

function ms :: "rx \<Rightarrow> string \<Rightarrow> nat \<Rightarrow> caps \<Rightarrow> (nat \<times> caps) list" where
  "ms Eps s i c = [(i, c)]"
| "ms (Sym P) s i c = (if i < length s \<and> P (s ! i) then [(Suc i, c)] else [])"
| "ms (Lit w) s i c = (if take (length w) (drop i s) = w then [(i + length w, c)] else [])"
| "ms (Seq a b) s i c = concat (map (\<lambda>(j, c'). ms b s j c') (ms a s i c))"
| "ms (Alt a b) s i c = ms a s i c @ ms b s i c"
| "ms (Opt a) s i c = ms a s i c @ [(i, c)]"
| "ms (Star a) s i c =
     concat (map (\<lambda>(j, c'). if i < j \<and> j \<le> length s then ms (Star a) s j c' else [])
                 (ms a s i c)) @ [(i, c)]"
| "ms (LazyStar a) s i c =
     (i, c) # concat (map (\<lambda>(j, c'). if i < j \<and> j \<le> length s
                                       then ms (LazyStar a) s j c' else [])
                          (ms a s i c))"
| "ms (Grp n a) s i c = map (\<lambda>(j, c'). (j, (n, i, j) # c')) (ms a s i c)"
| "ms WordB s i c =
     (if (0 < i \<and> word_at s (i - 1)) \<noteq> word_at s i then [(i, c)] else [])"
| "ms Bol s i c =
     (if i = 0 \<or> (i \<le> length s \<and> s ! (i - 1) = CHR 0x0A) then [(i, c)] else [])"
| "ms Eol s i c =
     (if i = length s \<or> (i < length s \<and> s ! i = CHR 0x0A) then [(i, c)] else [])"
  by pat_completeness auto
termination
  by (relation "inv_image (less_than <*lex*> less_than)
                  (\<lambda>(r, s, i, c). (size r, length s - i))")
     auto

record rmatch =
  m_start :: nat
  m_end :: nat
  m_caps :: caps

fun search_from :: "rx \<Rightarrow> string \<Rightarrow> nat \<Rightarrow> nat \<Rightarrow> rmatch option" where
  \<comment> \<open>the leftmost start among the next \<open>k\<close> indices from \<open>i\<close> at which \<open>r\<close> matches\<close>
  "search_from r s i 0 = None"
| "search_from r s i (Suc k) =
     (case ms r s i [] of
        [] \<Rightarrow> search_from r s (Suc i) k
      | (j, c) # _ \<Rightarrow> Some \<lparr>m_start = i, m_end = j, m_caps = c\<rparr>)"

definition re_search :: "rx \<Rightarrow> string \<Rightarrow> rmatch option" where
  \<comment> \<open>\<open>pattern.search(s)\<close>\<close>
  "re_search r s = search_from r s 0 (Suc (length s))"

definition m_group :: "string \<Rightarrow> rmatch \<Rightarrow> nat \<Rightarrow> string" where
  \<comment> \<open>\<open>match.group(n)\<close> for a group that took part in the match\<close>
  "m_group s m n = (case map_of (m_caps m) n of
                      None \<Rightarrow> []
                    | Some (a, b) \<Rightarrow> take (b - a) (drop a s))"

lemma search_from_start: "search_from r s i k = Some m \<Longrightarrow> i \<le> m_start m"
proof (induction k arbitrary: i)
  case 0
  then show ?case by simp
next
  case (Suc k)
  show ?case
  proof (cases "ms r s i []")
    case Nil
    with Suc.prems have "search_from r s (Suc i) k = Some m" by simp
    from Suc.IH [OF this] show ?thesis by simp
  next
    case (Cons p ps)
    with Suc.prems show ?thesis by (cases p) auto
  qed
qed

function findall_from :: "rx \<Rightarrow> string \<Rightarrow> nat \<Rightarrow> rmatch list" where
  \<comment> \<open>the successive non-overlapping matches that \<open>pattern.findall(s)\<close> scans, for a
      pattern that cannot match the empty string\<close>
  "findall_from r s pos =
     (if length s < pos then []
      else (case search_from r s pos (Suc (length s) - pos) of
              None \<Rightarrow> []
            | Some m \<Rightarrow> m # findall_from r s (max (m_end m) (Suc (m_start m)))))"
  by pat_completeness auto
termination
proof (relation "measure (\<lambda>(r, s, pos). Suc (length s) - pos)")
  show "wf (measure (\<lambda>(r, s, pos). Suc (length s) - pos))" by simp
next
  fix r :: rx and s :: string and pos :: nat and m :: rmatch
  assume a: "\<not> length s < pos"
    and b: "search_from r s pos (Suc (length s) - pos) = Some m"
  from search_from_start [OF b] have "pos \<le> m_start m" .
  with a show "((r, s, max (m_end m) (Suc (m_start m))), (r, s, pos))
                 \<in> measure (\<lambda>(r, s, pos). Suc (length s) - pos)"
    by auto
qed

definition re_findall :: "rx \<Rightarrow> nat \<Rightarrow> string \<Rightarrow> string list" where
  \<comment> \<open>\<open>pattern.findall(s)\<close> for a pattern with the one capture group \<open>n\<close>\<close>
  "re_findall r n s = map (\<lambda>m. m_group s m n) (findall_from r s 0)"

definition Plus :: "rx \<Rightarrow> rx" where
  "Plus r = Seq r (Star r)"

definition seqs :: "rx list \<Rightarrow> rx" where
  "seqs rs = foldr Seq rs Eps"

definition alts :: "rx \<Rightarrow> rx list \<Rightarrow> rx" where
  "alts r rs = foldl Alt r rs"

definition any_char :: "char \<Rightarrow> bool" where
  \<comment> \<open>\<open>[\s\S]\<close>\<close>
  "any_char ch = True"

subsection \<open>The patterns of the module\<close>

definition IMPORT_RE :: rx where
  \<comment> \<open>\<open>^\s*import\s+([a-zA-Z0-9_.*]+)\s*;\s*$\<close>, MULTILINE\<close>
  "IMPORT_RE = seqs
     [Bol, Star (Sym is_space), Lit ''import'', Plus (Sym is_space),
      Grp 1 (Plus (Sym (\<lambda>ch. is_ident_char ch \<or> ch = CHR ''.'' \<or> ch = CHR ''*''))),
      Star (Sym is_space), Lit '';'', Star (Sym is_space), Eol]"

definition PACKAGE_RE :: rx where
  \<comment> \<open>\<open>^\s*package\s+([\w.]+)\s*;\<close>, MULTILINE\<close>
  "PACKAGE_RE = seqs
     [Bol, Star (Sym is_space), Lit ''package'', Plus (Sym is_space),
      Grp 1 (Plus (Sym (\<lambda>ch. is_word ch \<or> ch = CHR ''.''))),
      Star (Sym is_space), Lit '';'']"

definition TYPE_RE :: rx where
  \<comment> \<open>annotations, a visibility, a modifier, then
      \<open>(class|interface|enum|record)\s+([A-Za-z_][A-Za-z0-9_]*)\<close>\<close>
  "TYPE_RE = seqs
     [Star (seqs [Lit ''@'', Plus (Sym is_word),
                  Opt (seqs [Lit ''('', Star (Sym (\<lambda>ch. ch \<noteq> CHR '')'')), Lit '')'']),
                  Star (Sym is_space)]),
      Opt (alts (Lit ''public'') [Lit ''protected'', Lit ''private'']),
      Star (Sym is_space),
      Opt (alts (Lit ''abstract'') [Lit ''final'', Lit ''static'']),
      Star (Sym is_space),
      Grp 1 (alts (Lit ''class'') [Lit ''interface'', Lit ''enum'', Lit ''record'']),
      Plus (Sym is_space),
      Grp 2 (Seq (Sym is_ident_start) (Star (Sym is_ident_char)))]"

section \<open>The file system\<close>

text \<open>
  What the program asks of the operating system and of the Python runtime during one
  run. \<open>os_walk\<close> lists, for a directory, the \<open>(root, files)\<close> pairs that \<open>os.walk\<close>
  yields, in its order; \<open>os_read\<close> is \<open>open(path).read()\<close>, \<open>None\<close> when it raises;
  \<open>set_order\<close> is the order in which the runtime enumerates a set of strings.
\<close>

record world =
  os_exists :: "string \<Rightarrow> bool"
  os_isdir :: "string \<Rightarrow> bool"
  os_walk :: "string \<Rightarrow> (string \<times> string list) list"
  os_read :: "string \<Rightarrow> string option"
  os_writable :: "string \<Rightarrow> bool"
  set_order :: "string list \<Rightarrow> string list"

definition py_list_set :: "world \<Rightarrow> string list \<Rightarrow> string list" where
  \<comment> \<open>\<open>list(set(xs))\<close>: the distinct elements of \<open>xs\<close> in the order of the runtime. An
      oracle that does not enumerate exactly the elements of \<open>xs\<close> is replaced by
      \<open>remdups\<close>, so that every \<open>world\<close> gives an enumeration.\<close>
  "py_list_set w xs =
     (let ys = set_order w xs
      in if distinct ys \<and> set ys = set xs then ys else remdups xs)"

definition path_join :: "string \<Rightarrow> string \<Rightarrow> string" where
  \<comment> \<open>\<open>os.path.join(a, b)\<close> of posixpath\<close>
  "path_join a b =
     (if startswith b ''/'' then b
      else if a = [] \<or> endswith a ''/'' then a @ b
      else a @ ''/'' @ b)"

definition py_slice_to :: "'a list \<Rightarrow> int \<Rightarrow> 'a list" where
  \<comment> \<open>\<open>xs[:k]\<close>: a negative \<open>k\<close> counts from the end\<close>
  "py_slice_to xs k =
     (if 0 \<le> k then take (nat k) xs else take (nat (int (length xs) + k)) xs)"

section \<open>Import resolution and type extraction\<close>

definition java_package_to_path :: "string \<Rightarrow> string" where
  \<comment> \<open>\<open>package_name.replace(".", "/")\<close>\<close>
  "java_package_to_path package_name =
     map (\<lambda>ch. if ch = CHR ''.'' then CHR ''/'' else ch) package_name"

definition extract_imports_and_used :: "string \<Rightarrow> string list \<times> string set" where
  "extract_imports_and_used code =
     (let imports = re_findall IMPORT_RE 1 code;
          identifiers =
            re_findall (seqs [WordB, Grp 1 (Seq (Sym is_ident_start) (Star (Sym is_ident_char))),
                              WordB]) 1 code;
          ignore = {''if'', ''for'', ''while'', ''switch'', ''catch'', ''return'', ''throw'',
                    ''new'', ''class'', ''public'', ''private'', ''protected'', ''static'',
                    ''final'', ''void'', ''int'', ''float'', ''double'', ''boolean'',
                    ''extends'', ''implements'', ''try''}
      in (imports, set (filter (\<lambda>i. i \<notin> ignore) identifiers)))"

definition resolve_import :: "world \<Rightarrow> string \<Rightarrow> string \<Rightarrow> string list" where
  "resolve_import w import_name repo_path =
     (let base_src = path_join repo_path ''src/main/java''
      in if endswith import_name ''.*'' then
           (let pkg_path = java_package_to_path (take (length import_name - 2) import_name);
                full_dir = path_join base_src pkg_path
            in if os_isdir w full_dir then
                 concat (map (\<lambda>(root, files).
                                 map (path_join root) (filter (\<lambda>f. endswith f ''.java'') files))
                             (os_walk w full_dir))
               else [])
         else
           (let file_path = path_join base_src (java_package_to_path import_name @ ''.java'')
            in if os_exists w file_path then [file_path] else []))"

fun brace_scan :: "string \<Rightarrow> nat \<Rightarrow> int \<Rightarrow> nat option" where
  \<comment> \<open>the loop of \<open>extract_full_type\<close> over the characters from index \<open>i\<close> on, with the
      depth counted so far: the index at which it returns, if it does\<close>
  "brace_scan [] i depth = None"
| "brace_scan (ch # cs) i depth =
     (if ch = CHR ''{'' then brace_scan cs (Suc i) (depth + 1)
      else if ch = CHR ''}'' then
        (if depth - 1 = 0 then Some i else brace_scan cs (Suc i) (depth - 1))
      else brace_scan cs (Suc i) depth)"

definition extract_full_type :: "string \<Rightarrow> string" where
  "extract_full_type code =
     (case re_search TYPE_RE code of
        None \<Rightarrow> code
      | Some m \<Rightarrow>
          (case brace_scan (drop (m_end m) code) (m_end m) 0 of
             Some i \<Rightarrow> take (Suc i - m_start m) (drop (m_start m) code)
           | None \<Rightarrow> code))"

section \<open>Reverse-dependency search\<close>

definition is_test_file :: "string \<Rightarrow> bool" where
  \<comment> \<open>\<open>re.search(r'(?i)test\.java$', f)\<close>, for a name that ends with \<open>.java\<close>: the
      \<open>$\<close> can then only match at the end of the name\<close>
  "is_test_file f = endswith (map to_lower f) ''test.java''"

definition subtype_re :: "string \<Rightarrow> rx" where
  \<comment> \<open>\<open>\b(implements|extends)\b[\s\S]*?\b{base_name}\b\<close>\<close>
  "subtype_re base_name =
     seqs [WordB, Grp 1 (Alt (Lit ''implements'') (Lit ''extends'')), WordB,
           LazyStar (Sym any_char), WordB, Lit base_name, WordB]"

definition combined_re :: "string \<Rightarrow> string \<Rightarrow> rx" where
  \<comment> \<open>the ten patterns joined by \<open>|\<close>; \<open>re.escape\<close> makes the names literals\<close>
  "combined_re target_fqn base_name = alts
     (seqs [Lit ''import'', Plus (Sym is_space), Lit target_fqn, Star (Sym is_space), Lit '';''])
     [seqs [WordB, Lit ''implements'', WordB, LazyStar (Sym any_char),
            WordB, Lit base_name, WordB],
      seqs [WordB, Lit ''extends'', WordB, LazyStar (Sym any_char),
            WordB, Lit base_name, WordB],
      seqs [Lit ''new'', Plus (Sym is_space), Lit base_name, Star (Sym is_space), Lit ''(''],
      seqs [Lit ''@Autowired'', LazyStar (Sym any_char), WordB, Lit base_name, WordB],
      seqs [Lit ''@Inject'', LazyStar (Sym any_char), WordB, Lit base_name, WordB],
      seqs [Lit ''@Qualifier'', Star (Sym is_space), Lit ''('', Star (Sym is_space),
            Sym (\<lambda>ch. ch = CHR 0x22 \<or> ch = CHR 0x27), Lit base_name,
            Sym (\<lambda>ch. ch = CHR 0x22 \<or> ch = CHR 0x27), Star (Sym is_space), Lit '')''],
      seqs [Lit ''<'', Star (Sym is_space), Lit base_name, Star (Sym is_space), Lit ''>''],
      seqs [WordB, Lit base_name, Plus (Sym is_space), Sym is_ident_start,
            Star (Sym is_ident_char), WordB],
      seqs [WordB, Lit base_name, Star (Sym is_space), Lit ''.'']]"

definition frd_file ::
  "world \<Rightarrow> string \<Rightarrow> string \<Rightarrow> string \<Rightarrow> bool \<Rightarrow> string \<Rightarrow> string \<Rightarrow> string list" where
  \<comment> \<open>the body of the inner loop of \<open>find_reverse_dependencies\<close> for the file \<open>f\<close> of
      \<open>root\<close>: what it appends to \<open>results\<close>\<close>
  "frd_file w target_fqn base_name package_name include_tests root f =
     (if \<not> endswith f ''.java'' then []
      else if \<not> include_tests \<and> is_test_file f then []
      else (let path = path_join root f
            in case os_read w path of
                 None \<Rightarrow> []
               | Some text \<Rightarrow>
                   (let file_pkg = (case re_search PACKAGE_RE text of
                                      None \<Rightarrow> None
                                    | Some pkg_match \<Rightarrow> Some (m_group text pkg_match 1))
                    in if file_pkg = Some package_name
                          \<and> re_search (subtype_re base_name) text \<noteq> None
                       then [path]
                       else if re_search (combined_re target_fqn base_name) text \<noteq> None
                       then [path]
                       else [])))"

definition frd_scan ::
  "world \<Rightarrow> string \<Rightarrow> bool \<Rightarrow> (string \<times> string list) list \<Rightarrow> string list" where
  \<comment> \<open>the two nested loops of \<open>find_reverse_dependencies\<close> over what \<open>os.walk\<close> yields\<close>
  "frd_scan w target_fqn include_tests dirs =
     (let base_name = last (split_on (CHR ''.'') target_fqn);
          package_name = join_with ''.'' (butlast (split_on (CHR ''.'') target_fqn))
      in concat (map (\<lambda>(root, files).
                        concat (map (frd_file w target_fqn base_name package_name
                                       include_tests root) files))
                     dirs))"

definition find_reverse_dependencies :: "world \<Rightarrow> string \<Rightarrow> string \<Rightarrow> bool \<Rightarrow> string list" where
  "find_reverse_dependencies w repo_path target_fqn include_tests =
     py_list_set w (frd_scan w target_fqn include_tests (os_walk w repo_path))"

section \<open>Bean configuration and inheritance\<close>

definition bean_file :: "world \<Rightarrow> string \<Rightarrow> string \<Rightarrow> string \<Rightarrow> string list" where
  \<comment> \<open>the body of the inner loop of \<open>find_bean_configurations\<close>; the class name is an
      identifier, so it stands for itself in the pattern\<close>
  "bean_file w target_class_name root f =
     (if \<not> endswith f ''.java'' then []
      else (let path = path_join root f
            in case os_read w path of
                 None \<Rightarrow> []
               | Some text \<Rightarrow>
                   if (contains text ''@Configuration''
                         \<and> contains text (''new '' @ target_class_name))
                      \<or> (contains text ''@Bean'' \<and> contains text target_class_name)
                      \<or> re_search (seqs [Lit ''@Qualifier('',
                                          Sym (\<lambda>ch. ch = CHR 0x22 \<or> ch = CHR 0x27),
                                          Lit target_class_name,
                                          Sym (\<lambda>ch. ch = CHR 0x22 \<or> ch = CHR 0x27),
                                          Lit '')'']) text \<noteq> None
                   then [path] else []))"

definition find_bean_configurations :: "world \<Rightarrow> string \<Rightarrow> string \<Rightarrow> string list" where
  "find_bean_configurations w repo_path target_class_name =
     concat (map (\<lambda>(root, files). concat (map (bean_file w target_class_name root) files))
                 (os_walk w repo_path))"

definition find_inheritance_dependencies :: "world \<Rightarrow> string \<Rightarrow> string \<Rightarrow> string list" where
  "find_inheritance_dependencies w code repo_path =
     (let matches =
            re_findall
              (seqs [Alt (Lit ''extends'') (Lit ''implements''), Plus (Sym is_space),
                     Grp 1 (Plus (Sym (\<lambda>ch. is_ident_char ch \<or> ch = CHR ''.'' \<or> ch = CHR '',''
                                            \<or> is_space ch \<or> ch = CHR ''<'' \<or> ch = CHR ''>'')))])
              1 code
      in concat (map (\<lambda>m. concat (map (\<lambda>part. if part = [] then []
                                               else resolve_import w part repo_path)
                                      (re_split_class (\<lambda>ch. ch = CHR '','' \<or> is_space ch)
                                         (strip m) [])))
                     matches))"

section \<open>Recursive reverse-dependency traversal\<close>

type_synonym visited = "(string \<times> int) set"

definition limit_files :: "int option \<Rightarrow> string list \<Rightarrow> string list" where
  \<comment> \<open>\<open>if limit: files = files[:limit]\<close>: \<open>None\<close> and \<open>0\<close> are both false\<close>
  "limit_files limit files =
     (case limit of
        None \<Rightarrow> files
      | Some k \<Rightarrow> if k \<noteq> 0 then py_slice_to files k else files)"

text \<open>
  \<open>recursive_reverse_dependencies\<close> mutates the \<open>visited\<close> set that its recursive calls
  share, so the model returns the set with the results. \<open>visited = None\<close> is the default
  of the outermost call. \<open>rrd_loop\<close> is the \<open>for f in files\<close> loop, with \<open>results\<close> and
  \<open>visited\<close> as they stand when the loop reaches the remaining files; a read that raises
  is the \<open>except Exception: continue\<close>.
\<close>

function recursive_reverse_dependencies ::
  "world \<Rightarrow> string \<Rightarrow> string \<Rightarrow> int \<Rightarrow> bool \<Rightarrow> int option \<Rightarrow> visited option \<Rightarrow> int
     \<Rightarrow> string list \<times> visited"
and rrd_loop ::
  "world \<Rightarrow> string \<Rightarrow> int \<Rightarrow> bool \<Rightarrow> int option \<Rightarrow> int \<Rightarrow> string list \<Rightarrow> string list
     \<Rightarrow> visited \<Rightarrow> string list \<times> visited"
where
  "recursive_reverse_dependencies w repo_path target_fqn depth include_tests limit visited
       current_depth =
     (let visited0 = (case visited of None \<Rightarrow> {} | Some v \<Rightarrow> v)
      in if depth \<le> 0 then ([], visited0)
         else if (target_fqn, current_depth) \<in> visited0 then ([], visited0)
         else (let visited1 = insert (target_fqn, current_depth) visited0;
                   files = limit_files limit
                             (find_reverse_dependencies w repo_path target_fqn include_tests);
                   (results, visited2) =
                      rrd_loop w repo_path depth include_tests limit current_depth files []
                        visited1
               in (py_list_set w results, visited2)))"
| "rrd_loop w repo_path depth include_tests limit current_depth [] results visited =
     (results, visited)"
| "rrd_loop w repo_path depth include_tests limit current_depth (f # fs) results visited =
     (case os_read w f of
        None \<Rightarrow>
          rrd_loop w repo_path depth include_tests limit current_depth fs (results @ [f]) visited
      | Some code \<Rightarrow>
          (case re_search PACKAGE_RE code of
             None \<Rightarrow>
               rrd_loop w repo_path depth include_tests limit current_depth fs (results @ [f])
                 visited
           | Some pkg \<Rightarrow>
               (case re_search TYPE_RE code of
                  None \<Rightarrow>
                    rrd_loop w repo_path depth include_tests limit current_depth fs
                      (results @ [f]) visited
                | Some cls \<Rightarrow>
                    (let fqn = m_group code pkg 1 @ ''.'' @ m_group code cls 2;
                         (sub_results, visited1) =
                            recursive_reverse_dependencies w repo_path fqn (depth - 1)
                              include_tests limit (Some visited) (current_depth + 1)
                     in rrd_loop w repo_path depth include_tests limit current_depth fs
                          ((results @ [f]) @ sub_results) visited1))))"
  by pat_completeness auto
termination
  by (relation "inv_image (less_than <*lex*> less_than)
       (\<lambda>x. case x of
               Inl (w, repo_path, target_fqn, depth, r) \<Rightarrow> (2 * nat depth, 0)
             | Inr (w, repo_path, depth, include_tests, limit, current_depth, fs, r) \<Rightarrow>
                 (if depth \<le> 0 then 1 else 2 * nat depth - 1, length fs))")
     auto

text \<open>
  The traversal again, recording each expansion: \<open>rrd_trace\<close> returns the \<open>visited\<close> set
  and the list of the \<open>(target_fqn, current_depth)\<close> pairs for which a call got past both
  guards and searched the repository, in the order of the calls.
\<close>

function rrd_trace ::
  "world \<Rightarrow> string \<Rightarrow> string \<Rightarrow> int \<Rightarrow> bool \<Rightarrow> int option \<Rightarrow> visited option \<Rightarrow> int
     \<Rightarrow> visited \<times> (string \<times> int) list"
and rrd_trace_loop ::
  "world \<Rightarrow> string \<Rightarrow> int \<Rightarrow> bool \<Rightarrow> int option \<Rightarrow> int \<Rightarrow> string list \<Rightarrow> visited
     \<Rightarrow> visited \<times> (string \<times> int) list"
where
  "rrd_trace w repo_path target_fqn depth include_tests limit visited current_depth =
     (let visited0 = (case visited of None \<Rightarrow> {} | Some v \<Rightarrow> v)
      in if depth \<le> 0 then (visited0, [])
         else if (target_fqn, current_depth) \<in> visited0 then (visited0, [])
         else (let visited1 = insert (target_fqn, current_depth) visited0;
                   files = limit_files limit
                             (find_reverse_dependencies w repo_path target_fqn include_tests);
                   (visited2, tr) =
                      rrd_trace_loop w repo_path depth include_tests limit current_depth files
                        visited1
               in (visited2, (target_fqn, current_depth) # tr)))"
| "rrd_trace_loop w repo_path depth include_tests limit current_depth [] visited =
     (visited, [])"
| "rrd_trace_loop w repo_path depth include_tests limit current_depth (f # fs) visited =
     (case os_read w f of
        None \<Rightarrow> rrd_trace_loop w repo_path depth include_tests limit current_depth fs visited
      | Some code \<Rightarrow>
          (case re_search PACKAGE_RE code of
             None \<Rightarrow>
               rrd_trace_loop w repo_path depth include_tests limit current_depth fs visited
           | Some pkg \<Rightarrow>
               (case re_search TYPE_RE code of
                  None \<Rightarrow>
                    rrd_trace_loop w repo_path depth include_tests limit current_depth fs visited
                | Some cls \<Rightarrow>
                    (let fqn = m_group code pkg 1 @ ''.'' @ m_group code cls 2;
                         (visited1, tr1) =
                            rrd_trace w repo_path fqn (depth - 1) include_tests limit
                              (Some visited) (current_depth + 1);
                         (visited2, tr2) =
                            rrd_trace_loop w repo_path depth include_tests limit current_depth
                              fs visited1
                     in (visited2, tr1 @ tr2)))))"
  by pat_completeness auto
termination
  by (relation "inv_image (less_than <*lex*> less_than)
       (\<lambda>x. case x of
               Inl (w, repo_path, target_fqn, depth, r) \<Rightarrow> (2 * nat depth, 0)
             | Inr (w, repo_path, depth, include_tests, limit, current_depth, fs, r) \<Rightarrow>
                 (if depth \<le> 0 then 1 else 2 * nat depth - 1, length fs))")
     auto

text \<open>
  The traversal with a bound on the nesting of calls: \<open>rrd_fuel n\<close> is \<open>None\<close> when a
  chain of more than \<open>n\<close> nested calls would be needed.
\<close>

fun rrd_fuel ::
  "nat \<Rightarrow> world \<Rightarrow> string \<Rightarrow> string \<Rightarrow> int \<Rightarrow> bool \<Rightarrow> int option \<Rightarrow> visited option \<Rightarrow> int
     \<Rightarrow> (string list \<times> visited) option"
and rrd_fuel_loop ::
  "nat \<Rightarrow> world \<Rightarrow> string \<Rightarrow> int \<Rightarrow> bool \<Rightarrow> int option \<Rightarrow> int \<Rightarrow> string list \<Rightarrow> string list
     \<Rightarrow> visited \<Rightarrow> (string list \<times> visited) option"
where
  "rrd_fuel 0 w repo_path target_fqn depth include_tests limit visited current_depth = None"
| "rrd_fuel (Suc n) w repo_path target_fqn depth include_tests limit visited current_depth =
     (let visited0 = (case visited of None \<Rightarrow> {} | Some v \<Rightarrow> v)
      in if depth \<le> 0 then Some ([], visited0)
         else if (target_fqn, current_depth) \<in> visited0 then Some ([], visited0)
         else (let visited1 = insert (target_fqn, current_depth) visited0;
                   files = limit_files limit
                             (find_reverse_dependencies w repo_path target_fqn include_tests)
               in case rrd_fuel_loop n w repo_path depth include_tests limit current_depth
                         files [] visited1 of
                    None \<Rightarrow> None
                  | Some (results, visited2) \<Rightarrow> Some (py_list_set w results, visited2)))"
| "rrd_fuel_loop n w repo_path depth include_tests limit current_depth [] results visited =
     Some (results, visited)"
| "rrd_fuel_loop n w repo_path depth include_tests limit current_depth (f # fs) results
       visited =
     (case os_read w f of
        None \<Rightarrow>
          rrd_fuel_loop n w repo_path depth include_tests limit current_depth fs
            (results @ [f]) visited
      | Some code \<Rightarrow>
          (case re_search PACKAGE_RE code of
             None \<Rightarrow>
               rrd_fuel_loop n w repo_path depth include_tests limit current_depth fs
                 (results @ [f]) visited
           | Some pkg \<Rightarrow>
               (case re_search TYPE_RE code of
                  None \<Rightarrow>
                    rrd_fuel_loop n w repo_path depth include_tests limit current_depth fs
                      (results @ [f]) visited
                | Some cls \<Rightarrow>
                    (case rrd_fuel n w repo_path
                            (m_group code pkg 1 @ ''.'' @ m_group code cls 2) (depth - 1)
                            include_tests limit (Some visited) (current_depth + 1) of
                       None \<Rightarrow> None
                     | Some (sub_results, visited1) \<Rightarrow>
                         rrd_fuel_loop n w repo_path depth include_tests limit current_depth fs
                           ((results @ [f]) @ sub_results) visited1))))"

text \<open>
  Reverse-dependency hops, for stating the depth bound: \<open>file_fqn\<close> is the name under
  which the traversal expands a file, and \<open>within_hops n\<close> lists the files that a chain of
  at most \<open>n\<close> hops reaches from a target, a hop going from a name to a file that
  \<open>find_reverse_dependencies\<close> reports for it.
\<close>

definition file_fqn :: "world \<Rightarrow> string \<Rightarrow> string option" where
  "file_fqn w f =
     (case os_read w f of
        None \<Rightarrow> None
      | Some code \<Rightarrow>
          (case re_search PACKAGE_RE code of
             None \<Rightarrow> None
           | Some pkg \<Rightarrow>
               (case re_search TYPE_RE code of
                  None \<Rightarrow> None
                | Some cls \<Rightarrow> Some (m_group code pkg 1 @ ''.'' @ m_group code cls 2))))"

fun within_hops :: "world \<Rightarrow> string \<Rightarrow> bool \<Rightarrow> nat \<Rightarrow> string \<Rightarrow> string list" where
  "within_hops w repo_path include_tests 0 target_fqn = []"
| "within_hops w repo_path include_tests (Suc n) target_fqn =
     (let files = find_reverse_dependencies w repo_path target_fqn include_tests
      in files @ concat (map (\<lambda>f. case file_fqn w f of
                                     None \<Rightarrow> []
                                   | Some fqn \<Rightarrow> within_hops w repo_path include_tests n fqn)
                             files))"

section \<open>Context assembly\<close>

text \<open>
  An entry of \<open>output_chunks\<close> is kept as its three parts, the label, the path and the
  text; \<open>render_chunk\<close> is the string that the program appends. An \<open>open\<close> outside a
  \<open>try\<close> that raises ends the run: \<open>Inl\<close>.
  The messages that the program prints are left out, and so are \<open>clone_repo\<close> and the
  wrapper \<open>generate_java_context\<close>, which fetch the repository and then hand every
  argument on to \<open>prepare_context_multi\<close>.
\<close>

datatype kind = IMPORT string | EXTENDS_IMPLEMENTS | REVERSE_DEPENDENCY | BEAN_CONFIGURATION

record chunk =
  chunk_kind :: kind
  chunk_path :: string
  chunk_text :: string

datatype error = IOError string

type_synonym emitted = "string set \<times> chunk list"

fun kind_label :: "kind \<Rightarrow> string" where
  "kind_label (IMPORT imp) = ''IMPORT '' @ imp"
| "kind_label EXTENDS_IMPLEMENTS = ''EXTENDS / IMPLEMENTS''"
| "kind_label REVERSE_DEPENDENCY = ''REVERSE DEPENDENCY''"
| "kind_label BEAN_CONFIGURATION = ''BEAN / CONFIGURATION''"

definition render_chunk :: "chunk \<Rightarrow> string" where
  "render_chunk c =
     ''=== '' @ kind_label (chunk_kind c) @ '' ===\<newline># '' @ chunk_path c @ ''\<newline>\<newline>''
       @ chunk_text c @ ''\<newline>\<newline>''"

fun truthy :: "string option \<Rightarrow> bool" where
  \<comment> \<open>the truth value of a string or \<open>None\<close>\<close>
  "truthy None = False"
| "truthy (Some s) = (s \<noteq> [])"

fun emit_import_files :: "world \<Rightarrow> string \<Rightarrow> string list \<Rightarrow> emitted \<Rightarrow> error + emitted" where
  \<comment> \<open>\<open>for file_path in resolve_import(imp, repo_path)\<close>\<close>
  "emit_import_files w imp [] b = Inr b"
| "emit_import_files w imp (file_path # ps) (seen_files, output_chunks) =
     (if file_path \<in> seen_files then emit_import_files w imp ps (seen_files, output_chunks)
      else (case os_read w file_path of
              None \<Rightarrow> Inl (IOError file_path)
            | Some code_text \<Rightarrow>
                emit_import_files w imp ps
                  (insert file_path seen_files,
                   output_chunks @ [\<lparr>chunk_kind = IMPORT imp, chunk_path = file_path,
                                      chunk_text = extract_full_type code_text\<rparr>])))"

fun emit_imports :: "world \<Rightarrow> string \<Rightarrow> string list \<Rightarrow> emitted \<Rightarrow> error + emitted" where
  \<comment> \<open>\<open>for imp in imports\<close>\<close>
  "emit_imports w repo_path [] b = Inr b"
| "emit_imports w repo_path (imp # imps) b =
     (case emit_import_files w imp (resolve_import w imp repo_path) b of
        Inl e \<Rightarrow> Inl e
      | Inr b' \<Rightarrow> emit_imports w repo_path imps b')"

fun emit_files :: "world \<Rightarrow> kind \<Rightarrow> string list \<Rightarrow> emitted \<Rightarrow> error + emitted" where
  \<comment> \<open>the loop of each of the three other categories, which emit the whole file\<close>
  "emit_files w k [] b = Inr b"
| "emit_files w k (f # fs) (seen_files, output_chunks) =
     (if f \<notin> seen_files then
        (case os_read w f of
           None \<Rightarrow> Inl (IOError f)
         | Some src \<Rightarrow>
             emit_files w k fs
               (insert f seen_files,
                output_chunks @ [\<lparr>chunk_kind = k, chunk_path = f, chunk_text = src\<rparr>]))
      else emit_files w k fs (seen_files, output_chunks))"

definition qualified_name :: "string option \<Rightarrow> string option \<Rightarrow> string option" where
  \<comment> \<open>\<open>f"{current_pkg}.{current_class}" if current_pkg and current_class else None\<close>\<close>
  "qualified_name current_pkg current_class =
     (case (current_pkg, current_class) of
        (Some pkg, Some cls) \<Rightarrow>
          if truthy current_pkg \<and> truthy current_class then Some (pkg @ ''.'' @ cls) else None
      | _ \<Rightarrow> None)"

definition emit_reverse ::
  "world \<Rightarrow> string \<Rightarrow> int \<Rightarrow> bool \<Rightarrow> int option \<Rightarrow> string option \<Rightarrow> emitted
     \<Rightarrow> error + emitted" where
  \<comment> \<open>\<open>if current_fqn:\<close> and its loop over the reverse dependencies\<close>
  "emit_reverse w repo_path depth include_tests reverse_limit current_fqn b =
     (case current_fqn of
        None \<Rightarrow> Inr b
      | Some fqn \<Rightarrow>
          if truthy current_fqn then
            emit_files w REVERSE_DEPENDENCY
              (fst (recursive_reverse_dependencies w repo_path fqn depth include_tests
                      reverse_limit None 1)) b
          else Inr b)"

definition emit_beans :: "world \<Rightarrow> string \<Rightarrow> string option \<Rightarrow> emitted \<Rightarrow> error + emitted" where
  \<comment> \<open>\<open>if current_class:\<close> and its loop over the bean configurations\<close>
  "emit_beans w repo_path current_class b =
     (case current_class of
        None \<Rightarrow> Inr b
      | Some cls \<Rightarrow>
          if truthy current_class then
            emit_files w BEAN_CONFIGURATION (find_bean_configurations w repo_path cls) b
          else Inr b)"

fun prepare_targets ::
  "world \<Rightarrow> string \<Rightarrow> int \<Rightarrow> bool \<Rightarrow> int option \<Rightarrow> string list \<Rightarrow> emitted \<Rightarrow> error + emitted" where
  \<comment> \<open>\<open>for target_file_path in target_files\<close>, from the \<open>seen_files\<close> and
      \<open>output_chunks\<close> that the earlier targets left\<close>
  "prepare_targets w repo_path depth include_tests reverse_limit [] b = Inr b"
| "prepare_targets w repo_path depth include_tests reverse_limit (target_file_path # ts) b =
     (let target_full_path = path_join repo_path target_file_path
      in if \<not> os_exists w target_full_path
         then prepare_targets w repo_path depth include_tests reverse_limit ts b
         else
           (case os_read w target_full_path of
              None \<Rightarrow> Inl (IOError target_full_path)
            | Some code \<Rightarrow>
                (let imports = fst (extract_imports_and_used code);
                     current_pkg = map_option (\<lambda>m. m_group code m 1) (re_search PACKAGE_RE code);
                     current_class = map_option (\<lambda>m. m_group code m 2) (re_search TYPE_RE code);
                     current_fqn = qualified_name current_pkg current_class
                 in case emit_imports w repo_path imports b of
                      Inl e \<Rightarrow> Inl e
                    | Inr b1 \<Rightarrow>
                   (case emit_files w EXTENDS_IMPLEMENTS
                           (find_inheritance_dependencies w code repo_path) b1 of
                      Inl e \<Rightarrow> Inl e
                    | Inr b2 \<Rightarrow>
                   (case emit_reverse w repo_path depth include_tests reverse_limit
                           current_fqn b2 of
                      Inl e \<Rightarrow> Inl e
                    | Inr b3 \<Rightarrow>
                   (case emit_beans w repo_path current_class b3 of
                      Inl e \<Rightarrow> Inl e
                    | Inr b4 \<Rightarrow>
                        prepare_targets w repo_path depth include_tests reverse_limit ts
                          b4))))))"

definition prepare_context_chunks ::
  "world \<Rightarrow> string \<Rightarrow> string list \<Rightarrow> int \<Rightarrow> bool \<Rightarrow> int option \<Rightarrow> error + emitted" where
  \<comment> \<open>\<open>seen_files\<close> and \<open>output_chunks\<close> when the loop over the targets has ended\<close>
  "prepare_context_chunks w repo_path target_files depth include_tests reverse_limit =
     prepare_targets w repo_path depth include_tests reverse_limit target_files ({}, [])"

datatype outcome =
    Context_text string
  | Context_saved string string nat

definition prepare_context_multi ::
  "world \<Rightarrow> string \<Rightarrow> string list \<Rightarrow> string \<Rightarrow> int \<Rightarrow> bool \<Rightarrow> int option \<Rightarrow> bool
     \<Rightarrow> error + outcome" where
  \<comment> \<open>\<open>Context_saved output_file text n\<close>: \<open>text\<close> was written to \<open>output_file\<close> and
      the dictionary with the file name and the count \<open>n\<close> was returned\<close>
  "prepare_context_multi w repo_path target_files output_file depth include_tests
       reverse_limit return_string =
     (case prepare_context_chunks w repo_path target_files depth include_tests reverse_limit of
        Inl e \<Rightarrow> Inl e
      | Inr (seen_files, output_chunks) \<Rightarrow>
          (let context_text =
                 ''# Context for '' @ show_nat (length target_files) @ '' files\<newline># Repo: ''
                   @ repo_path @ ''\<newline>\<newline>'' @ concat (map render_chunk output_chunks)
           in if return_string then Inr (Context_text context_text)
              else if os_writable w output_file
              then Inr (Context_saved output_file context_text (card seen_files))
              else Inl (IOError output_file)))"

section \<open>Notions for stating the properties\<close>

text \<open>
  The brace depth as the specification words it: the opening braces minus the closing
  ones. \<open>closes_at code e j\<close> says that index \<open>j\<close>, at or after \<open>e\<close>, holds a closing
  brace that brings the depth counted from \<open>e\<close> back to zero; \<open>first_close\<close> is the first
  such index.
\<close>

definition brace_depth :: "string \<Rightarrow> int" where
  "brace_depth s = int (count_list s (CHR ''{'')) - int (count_list s (CHR ''}''))"

definition closes_at :: "string \<Rightarrow> nat \<Rightarrow> nat \<Rightarrow> bool" where
  "closes_at code e j =
     (e \<le> j \<and> j < length code \<and> code ! j = CHR ''}''
      \<and> brace_depth (take (Suc j - e) (drop e code)) = 0)"

definition first_close :: "string \<Rightarrow> nat \<Rightarrow> nat option" where
  "first_close code e = List.find (closes_at code e) [e..<length code]"

definition first_brace :: "string \<Rightarrow> nat \<Rightarrow> nat option" where
  \<comment> \<open>the index of the first brace, opening or closing, at or after \<open>e\<close>\<close>
  "first_brace code e =
     List.find (\<lambda>i. code ! i = CHR ''{'' \<or> code ! i = CHR ''}'') [e..<length code]"

text \<open>
  The files that the names of a list of files reach, and the state of the bundle that
  the assembler keeps.
\<close>

definition expansions :: "world \<Rightarrow> string \<Rightarrow> bool \<Rightarrow> nat \<Rightarrow> string list \<Rightarrow> string set" where
  \<comment> \<open>the files within \<open>n\<close> hops of the names of the files \<open>fs\<close>\<close>
  "expansions w repo_path include_tests n fs =
     (\<Union>g\<in>set fs. case file_fqn w g of
                      None \<Rightarrow> {}
                    | Some fqn \<Rightarrow> set (within_hops w repo_path include_tests n fqn))"

definition emitted_ok :: "emitted \<Rightarrow> bool" where
  \<comment> \<open>the paths of the chunks are exactly the seen files, each once\<close>
  "emitted_ok b =
     (set (map chunk_path (snd b)) = fst b \<and> distinct (map chunk_path (snd b)))"

section \<open>Example repositories\<close>

text \<open>
  \<open>tree_repo\<close> builds a file system from directories and their files, a file without
  content being one that cannot be read; sets are enumerated in the order of \<open>remdups\<close>.
\<close>

definition tree_repo :: "(string \<times> (string \<times> string option) list) list \<Rightarrow> world" where
  "tree_repo dirs =
     \<lparr>os_exists = (\<lambda>p. p \<in> set (map fst dirs)
                        \<or> p \<in> set (concat (map (\<lambda>(root, fs). map (\<lambda>(n, c). root @ ''/'' @ n) fs)
                                                 dirs))),
      os_isdir = (\<lambda>p. p \<in> set (map fst dirs)),
      os_walk = (\<lambda>d. filter (\<lambda>(root, files). root = d \<or> startswith root (d @ ''/''))
                             (map (\<lambda>(root, fs). (root, map fst fs)) dirs)),
      os_read = (\<lambda>p. case map_of (concat (map (\<lambda>(root, fs).
                                                  map (\<lambda>(n, c). (root @ ''/'' @ n, c)) fs)
                                               dirs)) p of
                       Some (Some c) \<Rightarrow> Some c
                     | _ \<Rightarrow> None),
      os_writable = (\<lambda>p. True),
      set_order = remdups\<rparr>"

definition cycle_repo :: world where
  \<comment> \<open>two classes that refer to each other\<close>
  "cycle_repo = tree_repo
     [(''/r'', [(''A.java'', Some ''package p;class A{B b;}''),
                (''B.java'', Some ''package p;class B{A a;}'')])]"

definition chain_repo :: world where
  \<comment> \<open>\<open>A\<close> is referenced by \<open>B\<close>, \<open>B\<close> by \<open>C\<close>, \<open>C\<close> by \<open>D\<close>\<close>
  "chain_repo = tree_repo
     [(''/r'', [(''A.java'', Some ''package p;class A{}''),
                (''B.java'', Some ''package p;class B{A a;}''),
                (''C.java'', Some ''package p;class C{B b;}''),
                (''D.java'', Some ''package p;class D{C c;}'')])]"



definition nopkg_repo :: world where
  \<comment> \<open>\<open>B\<close> refers to \<open>A\<close> and has no package declaration\<close>
  "nopkg_repo = tree_repo
     [(''/r'', [(''A.java'', Some ''package p;class A{}''),
                (''B.java'', Some ''class B{A a;}'')])]"

definition maven_repo :: world where
  \<comment> \<open>a target file at the root and one class under the source root\<close>
  "maven_repo = tree_repo
     [(''/r'', [(''T.java'', Some ''import p.A;\<newline>import p.*;\<newline>'')]),
      (''/r/src/main/java/p'', [(''A.java'', Some ''package p;class A{}''),
                                (''N.txt'', Some ''notes'')])]"

section \<open>Properties of the traversal\<close>

declare recursive_reverse_dependencies.simps [simp del]
declare rrd_loop.simps(2) [simp del]
declare rrd_trace.simps [simp del]
declare rrd_trace_loop.simps(2) [simp del]

lemma limit_files_zero: "limit_files (Some 0) files = limit_files None files"
  by (simp add: limit_files_def)

lemma set_limit_files: "set (limit_files limit files) \<subseteq> set files"
  by (auto simp: limit_files_def py_slice_to_def split: option.splits dest: in_set_takeD)

lemma set_py_list_set: "set (py_list_set w xs) = set xs"
  by (simp add: py_list_set_def Let_def)

lemma distinct_py_list_set: "distinct (py_list_set w xs)"
  by (simp add: py_list_set_def Let_def)

lemma py_list_set_remdups: "set_order w = remdups \<Longrightarrow> py_list_set w xs = remdups xs"
  by (simp add: py_list_set_def)

lemma rrd_loop_step:
  "rrd_loop w repo_path depth include_tests limit current_depth (f # fs) results visited =
     (case file_fqn w f of
        None \<Rightarrow>
          rrd_loop w repo_path depth include_tests limit current_depth fs (results @ [f]) visited
      | Some fqn \<Rightarrow>
          (let (sub_results, visited1) =
                 recursive_reverse_dependencies w repo_path fqn (depth - 1) include_tests limit
                   (Some visited) (current_depth + 1)
           in rrd_loop w repo_path depth include_tests limit current_depth fs
                ((results @ [f]) @ sub_results) visited1))"
  by (simp add: file_fqn_def rrd_loop.simps(2) split: option.splits)

lemma rrd_limit_zero_aux:
  "limit = None \<longrightarrow>
     recursive_reverse_dependencies w repo_path target_fqn depth include_tests (Some 0) visited
       current_depth =
     recursive_reverse_dependencies w repo_path target_fqn depth include_tests limit visited
       current_depth"
  "limit = None \<longrightarrow>
     rrd_loop w repo_path depth include_tests (Some 0) current_depth fs results vis =
     rrd_loop w repo_path depth include_tests limit current_depth fs results vis"
proof (induction w repo_path target_fqn depth include_tests limit visited current_depth
         and w repo_path depth include_tests limit current_depth fs results vis
       rule: recursive_reverse_dependencies_rrd_loop.induct)
  case (1 w repo_path target_fqn depth include_tests limit visited current_depth)
  show ?case
  proof
    assume l: "limit = None"
    show "recursive_reverse_dependencies w repo_path target_fqn depth include_tests (Some 0)
            visited current_depth =
          recursive_reverse_dependencies w repo_path target_fqn depth include_tests limit
            visited current_depth"
      using 1 l
      by (simp add: recursive_reverse_dependencies.simps [of _ _ _ _ _ "Some 0"]
            recursive_reverse_dependencies.simps [of _ _ _ _ _ None] limit_files_zero Let_def)
  qed
next
  case (2 w repo_path depth include_tests limit current_depth results visited)
  then show ?case by simp
next
  case (3 w repo_path depth include_tests limit current_depth f fs results visited)
  show ?case
  proof
    assume l: "limit = None"
    show "rrd_loop w repo_path depth include_tests (Some 0) current_depth (f # fs) results
            visited =
          rrd_loop w repo_path depth include_tests limit current_depth (f # fs) results visited"
      using 3 l
      by (simp add: rrd_loop.simps(2) split: option.splits prod.splits)
  qed
qed

lemma emit_reverse_limit_zero:
  "emit_reverse w repo_path depth include_tests (Some 0) current_fqn b =
   emit_reverse w repo_path depth include_tests None current_fqn b"
  using rrd_limit_zero_aux(1) [of None]
  by (cases current_fqn) (simp_all add: emit_reverse_def)

lemma prepare_targets_limit_zero:
  "prepare_targets w repo_path depth include_tests (Some 0) ts b =
   prepare_targets w repo_path depth include_tests None ts b"
proof (induction ts arbitrary: b)
  case Nil
  show ?case by simp
next
  case (Cons t ts)
  show ?case
    by (simp add: Cons.IH emit_reverse_limit_zero Let_def split: option.splits sum.splits)
qed

lemma rrd_fuel_enough_aux:
  "\<forall>n. nat depth < n \<longrightarrow>
     rrd_fuel n w repo_path target_fqn depth include_tests limit visited current_depth =
     Some (recursive_reverse_dependencies w repo_path target_fqn depth include_tests limit
             visited current_depth)"
  "\<forall>n. 0 < depth \<and> nat depth \<le> n \<longrightarrow>
     rrd_fuel_loop n w repo_path depth include_tests limit current_depth fs results vis =
     Some (rrd_loop w repo_path depth include_tests limit current_depth fs results vis)"
proof (induction w repo_path target_fqn depth include_tests limit visited current_depth
         and w repo_path depth include_tests limit current_depth fs results vis
       rule: recursive_reverse_dependencies_rrd_loop.induct)
  case (1 w repo_path target_fqn depth include_tests limit visited current_depth)
  show ?case
  proof (intro allI impI)
    fix n assume n: "nat depth < n"
    then obtain k where k: "n = Suc k" by (cases n) auto
    show "rrd_fuel n w repo_path target_fqn depth include_tests limit visited current_depth =
          Some (recursive_reverse_dependencies w repo_path target_fqn depth include_tests limit
                  visited current_depth)"
    proof (cases "depth \<le> 0
                    \<or> (target_fqn, current_depth) \<in> (case visited of None \<Rightarrow> {} | Some v \<Rightarrow> v)")
      case True
      then show ?thesis
        by (auto simp: k recursive_reverse_dependencies.simps Let_def)
    next
      case False
      with n k have "0 < depth \<and> nat depth \<le> k" by auto
      with 1 False show ?thesis
        by (simp add: k recursive_reverse_dependencies.simps Let_def split: prod.splits)
    qed
  qed
next
  case (2 w repo_path depth include_tests limit current_depth results visited)
  then show ?case by simp
next
  case (3 w repo_path depth include_tests limit current_depth f fs results visited)
  show ?case
  proof (intro allI impI)
    fix n assume n: "0 < depth \<and> nat depth \<le> n"
    then have m: "nat (depth - 1) < n" by auto
    show "rrd_fuel_loop n w repo_path depth include_tests limit current_depth (f # fs) results
            visited =
          Some (rrd_loop w repo_path depth include_tests limit current_depth (f # fs) results
                  visited)"
      using 3 n m
      by (simp add: rrd_loop.simps(2) split: option.splits prod.splits)
  qed
qed

subsection \<open>The two-class cycle, evaluated\<close>

lemma cycle_order: "set_order cycle_repo = remdups"
  by (simp add: cycle_repo_def tree_repo_def)

lemma cycle_frd_A: "find_reverse_dependencies cycle_repo ''/r'' ''p.A'' False = [''/r/B.java'']"
  by code_simp

lemma cycle_frd_B: "find_reverse_dependencies cycle_repo ''/r'' ''p.B'' False = [''/r/A.java'']"
  by code_simp

lemma cycle_fqn_A: "file_fqn cycle_repo ''/r/A.java'' = Some ''p.A''"
  by code_simp

lemma cycle_fqn_B: "file_fqn cycle_repo ''/r/B.java'' = Some ''p.B''"
  by code_simp

lemma cycle_rrd:
  "recursive_reverse_dependencies cycle_repo ''/r'' ''p.A'' 3 False None None 1 =
     ([''/r/A.java'', ''/r/B.java''], {(''p.A'', 3), (''p.B'', 2), (''p.A'', 1)})"
  by (simp add: recursive_reverse_dependencies.simps rrd_loop_step Let_def limit_files_def
        cycle_frd_A cycle_frd_B cycle_fqn_A cycle_fqn_B py_list_set_remdups [OF cycle_order])

text \<open>
  C10: the traversal terminates on every input, by the depth alone. A call with depth
  \<open>d\<close> never nests more than \<open>nat d + 1\<close> calls, whatever the \<open>visited\<close> set holds and
  whatever the references between the files are: with that much fuel the bounded
  traversal returns, and returns what the traversal returns.
\<close>

theorem rrd_terminates_by_depth:
  "nat depth < n \<Longrightarrow>
   rrd_fuel n w repo_path target_fqn depth include_tests limit visited current_depth =
   Some (recursive_reverse_dependencies w repo_path target_fqn depth include_tests limit
           visited current_depth)"
  using rrd_fuel_enough_aux(1) by blast

theorem rrd_terminates_by_depth_witness:
  "nat 3 < (4 :: nat)
   \<and> rrd_fuel 4 cycle_repo ''/r'' ''p.A'' 3 False None None 1 =
     Some ([''/r/A.java'', ''/r/B.java''], {(''p.A'', 3), (''p.B'', 2), (''p.A'', 1)})"
  using rrd_terminates_by_depth [of 3 4 cycle_repo "''/r''" "''p.A''" False None None 1]
  by (simp add: cycle_rrd)

section \<open>Properties of type extraction and import resolution\<close>

lemma brace_depth_Cons:
  "brace_depth (ch # cs) =
     (if ch = CHR ''{'' then 1 else if ch = CHR ''}'' then - 1 else 0) + brace_depth cs"
  by (simp add: brace_depth_def)

lemma brace_scan_find:
  "brace_scan s i d =
     List.find (\<lambda>j. s ! (j - i) = CHR ''}'' \<and> d + brace_depth (take (Suc (j - i)) s) = 0)
       [i..<i + length s]"
proof (induction s arbitrary: i d)
  case Nil
  show ?case by simp
next
  case (Cons ch cs)
  let ?delta = "(if ch = CHR ''{'' then 1 else if ch = CHR ''}'' then - 1 else 0) :: int"
  have range: "[i..<i + length (ch # cs)] = i # [Suc i..<Suc i + length cs]"
    by (subst upt_rec) simp
  have rest: "List.find (\<lambda>j. (ch # cs) ! (j - i) = CHR ''}''
                             \<and> d + brace_depth (take (Suc (j - i)) (ch # cs)) = 0)
                [Suc i..<Suc i + length cs] =
              List.find (\<lambda>j. cs ! (j - Suc i) = CHR ''}''
                             \<and> (d + ?delta) + brace_depth (take (Suc (j - Suc i)) cs) = 0)
                [Suc i..<Suc i + length cs]"
  proof (rule find_cong [OF refl])
    fix j assume "j \<in> set [Suc i..<Suc i + length cs]"
    then have j: "Suc i \<le> j" by auto
    then obtain k where k: "j - i = Suc k" "j - Suc i = k"
      by (cases "j - i") auto
    show "((ch # cs) ! (j - i) = CHR ''}''
             \<and> d + brace_depth (take (Suc (j - i)) (ch # cs)) = 0) =
          (cs ! (j - Suc i) = CHR ''}''
             \<and> (d + ?delta) + brace_depth (take (Suc (j - Suc i)) cs) = 0)"
      by (auto simp: k brace_depth_Cons)
  qed
  have head: "((ch # cs) ! (i - i) = CHR ''}''
                 \<and> d + brace_depth (take (Suc (i - i)) (ch # cs)) = 0) =
              (ch = CHR ''}'' \<and> d - 1 = 0)"
    by (auto simp: brace_depth_def)
  show ?case
    unfolding range find.simps head rest
    using Cons.IH [of "Suc i" "d + ?delta"]
    by auto
qed

lemma brace_scan_first_close: "brace_scan (drop e code) e 0 = first_close code e"
proof -
  have r: "[e..<e + length (drop e code)] = [e..<length code]"
    by (cases "e \<le> length code") auto
  show ?thesis
    unfolding brace_scan_find first_close_def r
    by (rule find_cong [OF refl]) (auto simp: closes_at_def Suc_diff_le)
qed

lemma brace_depth_append: "brace_depth (xs @ ys) = brace_depth xs + brace_depth ys"
  by (simp add: brace_depth_def)

lemma brace_depth_take_Suc:
  "n < length s \<Longrightarrow>
   brace_depth (take (Suc n) s) =
     brace_depth (take n s)
     + (if s ! n = CHR ''{'' then 1 else if s ! n = CHR ''}'' then - 1 else 0)"
  by (simp add: take_Suc_conv_app_nth brace_depth_append) (simp add: brace_depth_def)

lemma brace_scan_skip:
  "n \<le> length s \<Longrightarrow> \<forall>t<n. s ! t \<noteq> CHR ''{'' \<and> s ! t \<noteq> CHR ''}'' \<Longrightarrow>
   brace_scan s i d = brace_scan (drop n s) (i + n) d"
proof (induction n arbitrary: s i)
  case 0
  show ?case by simp
next
  case (Suc n)
  from Suc.prems(1) obtain ch cs where s: "s = ch # cs" by (cases s) auto
  from Suc.prems(2) [rule_format, of 0] s have c: "ch \<noteq> CHR ''{''" "ch \<noteq> CHR ''}''" by auto
  have "\<forall>t<n. cs ! t \<noteq> CHR ''{'' \<and> cs ! t \<noteq> CHR ''}''"
  proof (intro allI impI)
    fix t assume "t < n"
    with Suc.prems(2) [rule_format, of "Suc t"] s
    show "cs ! t \<noteq> CHR ''{'' \<and> cs ! t \<noteq> CHR ''}''" by simp
  qed
  moreover from Suc.prems(1) s have "n \<le> length cs" by simp
  ultimately have "brace_scan cs (Suc i) d = brace_scan (drop n cs) (Suc i + n) d"
    by (rule Suc.IH [rotated])
  with s c show ?case by simp
qed

lemma first_brace_SomeD:
  assumes "first_brace code e = Some ob"
  shows "e \<le> ob" and "ob < length code"
    and "\<forall>k. e \<le> k \<and> k < ob \<longrightarrow> code ! k \<noteq> CHR ''{'' \<and> code ! k \<noteq> CHR ''}''"
proof -
  from assms obtain i where i: "i < length [e..<length code]"
      "ob = [e..<length code] ! i"
      "\<forall>j<i. \<not> (code ! ([e..<length code] ! j) = CHR ''{''
                  \<or> code ! ([e..<length code] ! j) = CHR ''}'')"
    unfolding first_brace_def find_Some_iff by blast
  from i(1,2) show eo: "e \<le> ob" and "ob < length code" by auto
  from i(1,2) have oi: "ob = e + i" by simp
  show "\<forall>k. e \<le> k \<and> k < ob \<longrightarrow> code ! k \<noteq> CHR ''{'' \<and> code ! k \<noteq> CHR ''}''"
  proof (intro allI impI)
    fix k assume k: "e \<le> k \<and> k < ob"
    then have "k - e < i" using oi by auto
    with i(3) have "\<not> (code ! ([e..<length code] ! (k - e)) = CHR ''{''
                        \<or> code ! ([e..<length code] ! (k - e)) = CHR ''}'')"
      by blast
    moreover have "[e..<length code] ! (k - e) = k"
      using k i(1) oi by auto
    ultimately show "code ! k \<noteq> CHR ''{'' \<and> code ! k \<noteq> CHR ''}''" by simp
  qed
qed

lemma first_close_from_first_brace:
  assumes "first_brace code e = Some ob"
  shows "first_close code e = first_close code ob"
proof -
  note fb = first_brace_SomeD [OF assms]
  have n: "ob - e \<le> length (drop e code)" using fb(1,2) by simp
  have clean: "\<forall>t<ob - e. drop e code ! t \<noteq> CHR ''{'' \<and> drop e code ! t \<noteq> CHR ''}''"
  proof (intro allI impI)
    fix t assume t: "t < ob - e"
    then have "e \<le> e + t \<and> e + t < ob" by simp
    with fb(3) have "code ! (e + t) \<noteq> CHR ''{'' \<and> code ! (e + t) \<noteq> CHR ''}''" by blast
    moreover have "drop e code ! t = code ! (e + t)"
      using t fb(2) by simp
    ultimately show "drop e code ! t \<noteq> CHR ''{'' \<and> drop e code ! t \<noteq> CHR ''}''" by simp
  qed
  have "brace_scan (drop e code) e 0 = brace_scan (drop (ob - e) (drop e code)) (e + (ob - e)) 0"
    by (rule brace_scan_skip [OF n clean])
  also have "\<dots> = brace_scan (drop ob code) ob 0"
    using fb(1) by simp
  finally show ?thesis
    by (simp add: brace_scan_first_close)
qed

lemma first_close_SomeD:
  assumes "first_close code ob = Some j"
  shows "closes_at code ob j" and "\<forall>k. ob \<le> k \<and> k < j \<longrightarrow> \<not> closes_at code ob k"
proof -
  from assms obtain i where i: "i < length [ob..<length code]"
      "closes_at code ob ([ob..<length code] ! i)" "j = [ob..<length code] ! i"
      "\<forall>t<i. \<not> closes_at code ob ([ob..<length code] ! t)"
    unfolding first_close_def find_Some_iff by blast
  from i(2,3) show "closes_at code ob j" by simp
  from i(1,3) have ji: "j = ob + i" by simp
  show "\<forall>k. ob \<le> k \<and> k < j \<longrightarrow> \<not> closes_at code ob k"
  proof (intro allI impI)
    fix k assume k: "ob \<le> k \<and> k < j"
    then have "k - ob < i" using ji by auto
    with i(4) have "\<not> closes_at code ob ([ob..<length code] ! (k - ob))" by blast
    moreover have "[ob..<length code] ! (k - ob) = k"
      using k i(1) ji by auto
    ultimately show "\<not> closes_at code ob k" by simp
  qed
qed

lemma first_close_matches:
  assumes "first_close code ob = Some j" and "code ! ob = CHR ''{''"
  shows "ob < j" and "code ! j = CHR ''}''"
    and "brace_depth (take (Suc j - ob) (drop ob code)) = 0"
    and "\<forall>k. ob \<le> k \<and> k < j \<longrightarrow> 0 < brace_depth (take (Suc k - ob) (drop ob code))"
proof -
  note fc = first_close_SomeD [OF assms(1)]
  from fc(1) have c: "ob \<le> j" "j < length code" "code ! j = CHR ''}''"
      "brace_depth (take (Suc j - ob) (drop ob code)) = 0"
    by (simp_all add: closes_at_def)
  from c(3) assms(2) have "ob \<noteq> j" by auto
  with c(1) show oj: "ob < j" by simp
  from c(3) show "code ! j = CHR ''}''" .
  from c(4) show "brace_depth (take (Suc j - ob) (drop ob code)) = 0" .
  have pos: "ob + t < j \<Longrightarrow> 0 < brace_depth (take (Suc t) (drop ob code))" for t
  proof (induction t)
    case 0
    have "take (Suc 0) (drop ob code) = [code ! ob]"
      using oj c(2) by (simp add: take_Suc_conv_app_nth)
    with assms(2) show ?case by (simp add: brace_depth_def)
  next
    case (Suc t)
    from Suc.prems have t: "ob + t < j" by simp
    from Suc.IH [OF t] have ih: "0 < brace_depth (take (Suc t) (drop ob code))" .
    have len: "Suc t < length (drop ob code)" using Suc.prems c(2) by simp
    have nth: "drop ob code ! Suc t = code ! (ob + Suc t)" using Suc.prems c(2) by simp
    have step: "brace_depth (take (Suc (Suc t)) (drop ob code)) =
                  brace_depth (take (Suc t) (drop ob code))
                  + (if code ! (ob + Suc t) = CHR ''{'' then 1
                     else if code ! (ob + Suc t) = CHR ''}'' then - 1 else 0)"
      using brace_depth_take_Suc [OF len] nth by simp
    show ?case
    proof (rule ccontr)
      assume "\<not> 0 < brace_depth (take (Suc (Suc t)) (drop ob code))"
      with step ih have z: "brace_depth (take (Suc (Suc t)) (drop ob code)) = 0"
        and b: "code ! (ob + Suc t) = CHR ''}''"
        by (auto split: if_splits)
      have "closes_at code ob (ob + Suc t)"
        using z b Suc.prems c(2) by (simp add: closes_at_def)
      moreover from fc(2) Suc.prems have "\<not> closes_at code ob (ob + Suc t)" by simp
      ultimately show False by simp
    qed
  qed
  show "\<forall>k. ob \<le> k \<and> k < j \<longrightarrow> 0 < brace_depth (take (Suc k - ob) (drop ob code))"
  proof (intro allI impI)
    fix k assume k: "ob \<le> k \<and> k < j"
    then have "ob + (k - ob) < j" by simp
    from pos [OF this] k show "0 < brace_depth (take (Suc k - ob) (drop ob code))"
      by (simp add: Suc_diff_le)
  qed
qed

text \<open>
  C5, as the code has it: the depth is counted from the end of the match of the
  declaration. When some closing brace returns that count to zero, the result runs from
  the start of the match through the first such brace; when none does, the result is the
  whole input. When the first brace after the match is an opening one, the count is the
  one started at that brace, and the brace at which the result ends is the one that
  matches it: the depth counted from the opening brace is zero there and positive at
  every index before, so every nested pair is inside.
\<close>

theorem extract_full_type_balanced:
  "re_search TYPE_RE code = Some m \<Longrightarrow>
   extract_full_type code =
     (case first_close code (m_end m) of
        Some j \<Rightarrow> take (Suc j - m_start m) (drop (m_start m) code)
      | None \<Rightarrow> code)
   \<and> (first_brace code (m_end m) = Some ob \<and> code ! ob = CHR ''{'' \<longrightarrow>
        first_close code (m_end m) = first_close code ob
        \<and> (first_close code ob = Some j \<longrightarrow>
             ob < j \<and> code ! j = CHR ''}''
             \<and> brace_depth (take (Suc j - ob) (drop ob code)) = 0
             \<and> (\<forall>k. ob \<le> k \<and> k < j \<longrightarrow>
                    0 < brace_depth (take (Suc k - ob) (drop ob code)))))"
  using first_close_from_first_brace [of code "m_end m" ob]
    first_close_matches [of code ob j]
  by (simp add: extract_full_type_def brace_scan_first_close)

lemma nested_match:
  "re_search TYPE_RE ''int x;class A {void f(){}}class B{}'' =
     Some \<lparr>m_start = 6, m_end = 13, m_caps = [(2, 12, 13), (1, 6, 11)]\<rparr>"
  by code_simp

lemma nested_open: "first_brace ''int x;class A {void f(){}}class B{}'' 13 = Some 14"
  by code_simp

lemma nested_close: "first_close ''int x;class A {void f(){}}class B{}'' 14 = Some 25"
  by code_simp

theorem extract_full_type_balanced_witness:
  "re_search TYPE_RE ''int x;class A {void f(){}}class B{}'' =
     Some \<lparr>m_start = 6, m_end = 13, m_caps = [(2, 12, 13), (1, 6, 11)]\<rparr>
   \<and> (first_brace ''int x;class A {void f(){}}class B{}'' 13 = Some 14
        \<and> ''int x;class A {void f(){}}class B{}'' ! 14 = CHR ''{'')
   \<and> first_close ''int x;class A {void f(){}}class B{}'' 14 = Some 25
   \<and> first_close ''int x;class A {void f(){}}class B{}'' 13 = Some 25
   \<and> extract_full_type ''int x;class A {void f(){}}class B{}'' = ''class A {void f(){}}''"
proof -
  have ch14: "''int x;class A {void f(){}}class B{}'' ! 14 = CHR ''{''" by code_simp
  from extract_full_type_balanced [OF nested_match, of 14 25] nested_open nested_close ch14
  have "extract_full_type ''int x;class A {void f(){}}class B{}'' =
          (case first_close ''int x;class A {void f(){}}class B{}'' 13 of
             Some j \<Rightarrow> take (Suc j - 6) (drop 6 ''int x;class A {void f(){}}class B{}'')
           | None \<Rightarrow> ''int x;class A {void f(){}}class B{}'')"
    and c: "first_close ''int x;class A {void f(){}}class B{}'' 13 = Some 25"
    by simp_all
  then have "extract_full_type ''int x;class A {void f(){}}class B{}'' = ''class A {void f(){}}''"
    by simp
  with nested_match nested_open nested_close ch14 c show ?thesis by simp
qed

lemma unclosed_match:
  "re_search TYPE_RE ''int x; class A { int y;'' =
     Some \<lparr>m_start = 6, m_end = 14, m_caps = [(2, 13, 14), (1, 7, 12)]\<rparr>"
  by code_simp

lemma unclosed_scan: "brace_scan (drop 14 ''int x; class A { int y;'') 14 0 = None"
  by code_simp

lemma stray_match:
  "re_search TYPE_RE ''class A } { { } }'' =
     Some \<lparr>m_start = 0, m_end = 7, m_caps = [(2, 6, 7), (1, 0, 5)]\<rparr>"
  by code_simp

lemma stray_scan: "brace_scan (drop 7 ''class A } { { } }'') 7 0 = Some 14"
  by code_simp

text \<open>
  A declaration that is never closed comes back whole, with the text before it; and
  after a closing brace that precedes the first opening one the result ends at an inner
  brace.
\<close>

theorem extract_full_type_unmatched_counterexample:
  "re_search TYPE_RE ''int x; class A { int y;'' =
     Some \<lparr>m_start = 6, m_end = 14, m_caps = [(2, 13, 14), (1, 7, 12)]\<rparr>
   \<and> first_close ''int x; class A { int y;'' 14 = None
   \<and> extract_full_type ''int x; class A { int y;'' = ''int x; class A { int y;''
   \<and> extract_full_type ''class A } { { } }'' = ''class A } { { }''"
  using unclosed_scan
  by (simp add: extract_full_type_def unclosed_match stray_match stray_scan
        flip: brace_scan_first_close)

text \<open>
  C6: a text in which no type declaration is recognised is returned as it is.
\<close>

theorem extract_full_type_no_declaration:
  "re_search TYPE_RE code = None \<Longrightarrow> extract_full_type code = code"
  by (simp add: extract_full_type_def)

lemma no_declaration_search: "re_search TYPE_RE ''int x = 1;'' = None"
  by code_simp

theorem extract_full_type_no_declaration_witness:
  "re_search TYPE_RE ''int x = 1;'' = None \<and> extract_full_type ''int x = 1;'' = ''int x = 1;''"
  using extract_full_type_no_declaration [OF no_declaration_search]
  by (simp add: no_declaration_search)


lemma endswith_append: "endswith (a @ b) suf = endswith b suf" if "length suf \<le> length b"
  using that by (simp add: endswith_def)







section \<open>The traversal, file by file\<close>

lemma rrd_unfold:
  "recursive_reverse_dependencies w repo_path target_fqn depth include_tests limit visited
     current_depth =
   (if depth \<le> 0 \<or> (target_fqn, current_depth) \<in> (case visited of None \<Rightarrow> {} | Some v \<Rightarrow> v)
    then ([], case visited of None \<Rightarrow> {} | Some v \<Rightarrow> v)
    else (py_list_set w
            (fst (rrd_loop w repo_path depth include_tests limit current_depth
                    (limit_files limit
                       (find_reverse_dependencies w repo_path target_fqn include_tests))
                    [] (insert (target_fqn, current_depth)
                          (case visited of None \<Rightarrow> {} | Some v \<Rightarrow> v)))),
          snd (rrd_loop w repo_path depth include_tests limit current_depth
                 (limit_files limit
                    (find_reverse_dependencies w repo_path target_fqn include_tests))
                 [] (insert (target_fqn, current_depth)
                       (case visited of None \<Rightarrow> {} | Some v \<Rightarrow> v)))))"
  by (simp add: recursive_reverse_dependencies.simps Let_def split: prod.splits)

lemma rrd_loop_step_None:
  "file_fqn w f = None \<Longrightarrow>
   rrd_loop w repo_path depth include_tests limit current_depth (f # fs) results visited =
   rrd_loop w repo_path depth include_tests limit current_depth fs (results @ [f]) visited"
  by (simp add: rrd_loop_step)

lemma rrd_loop_step_Some:
  "file_fqn w f = Some fqn \<Longrightarrow>
   rrd_loop w repo_path depth include_tests limit current_depth (f # fs) results visited =
   rrd_loop w repo_path depth include_tests limit current_depth fs
     ((results @ [f]) @
        fst (recursive_reverse_dependencies w repo_path fqn (depth - 1) include_tests limit
               (Some visited) (current_depth + 1)))
     (snd (recursive_reverse_dependencies w repo_path fqn (depth - 1) include_tests limit
             (Some visited) (current_depth + 1)))"
  by (simp add: rrd_loop_step split: prod.splits)

text \<open>
  Induction along the calls of the traversal, a file at a time: the traversal of a
  target rests on the loop over its files, and the loop on the traversal of each file
  that has a name and on the loop over the files that remain.
\<close>

lemma rrd_induct [case_names expand empty step]:
  assumes expand: "\<And>target_fqn depth visited current_depth.
      (0 < depth \<Longrightarrow>
       (target_fqn, current_depth) \<notin> (case visited of None \<Rightarrow> {} | Some v \<Rightarrow> v) \<Longrightarrow>
       Q depth current_depth
         (limit_files limit (find_reverse_dependencies w repo_path target_fqn include_tests))
         [] (insert (target_fqn, current_depth) (case visited of None \<Rightarrow> {} | Some v \<Rightarrow> v)))
      \<Longrightarrow> P target_fqn depth visited current_depth"
    and empty: "\<And>depth current_depth results vis. Q depth current_depth [] results vis"
    and step: "\<And>depth current_depth f fs results vis.
      (file_fqn w f = None \<Longrightarrow> Q depth current_depth fs (results @ [f]) vis) \<Longrightarrow>
      (\<And>fqn. file_fqn w f = Some fqn \<Longrightarrow>
         P fqn (depth - 1) (Some vis) (current_depth + 1)) \<Longrightarrow>
      (\<And>fqn. file_fqn w f = Some fqn \<Longrightarrow>
         Q depth current_depth fs
           ((results @ [f]) @
              fst (recursive_reverse_dependencies w repo_path fqn (depth - 1) include_tests
                     limit (Some vis) (current_depth + 1)))
           (snd (recursive_reverse_dependencies w repo_path fqn (depth - 1) include_tests
                   limit (Some vis) (current_depth + 1)))) \<Longrightarrow>
      Q depth current_depth (f # fs) results vis"
  shows "P target_fqn depth visited current_depth"
    and "Q depth current_depth fs results vis"
proof -
  have a: "w' = w \<and> r' = repo_path \<and> i' = include_tests \<and> l' = limit \<longrightarrow> P f d v c"
    and b: "w'' = w \<and> r'' = repo_path \<and> i'' = include_tests \<and> l'' = limit
              \<longrightarrow> Q d' c' fs' res' vis'"
    for w' r' f d i' l' v c w'' r'' d' i'' l'' c' fs' res' vis'
  proof (induction w' r' f d i' l' v c and w'' r'' d' i'' l'' c' fs' res' vis'
         rule: recursive_reverse_dependencies_rrd_loop.induct)
    case (1 w' r' f d i' l' v c)
    show ?case
    proof
      assume e: "w' = w \<and> r' = repo_path \<and> i' = include_tests \<and> l' = limit"
      show "P f d v c"
      proof (rule expand)
        assume "0 < d" and "(f, c) \<notin> (case v of None \<Rightarrow> {} | Some v \<Rightarrow> v)"
        with "1.IH" [OF refl _ _ refl refl] e
        show "Q d c (limit_files limit (find_reverse_dependencies w repo_path f include_tests))
                [] (insert (f, c) (case v of None \<Rightarrow> {} | Some v \<Rightarrow> v))"
          by simp
      qed
    qed
  next
    case (2 w'' r'' d' i'' l'' c' res' vis')
    show ?case by (simp add: empty)
  next
    case (3 w'' r'' d' i'' l'' c' f fs res' vis')
    show ?case
    proof
      assume e: "w'' = w \<and> r'' = repo_path \<and> i'' = include_tests \<and> l'' = limit"
      show "Q d' c' (f # fs) res' vis'"
      proof (rule step)
        assume n: "file_fqn w f = None"
        show "Q d' c' fs (res' @ [f]) vis'"
        proof (cases "os_read w f")
          case None
          with "3.IH"(1) e show ?thesis by simp
        next
          case (Some code)
          note code = this
          show ?thesis
          proof (cases "re_search PACKAGE_RE code")
            case None
            with "3.IH"(2) code e show ?thesis by simp
          next
            case (Some pkg)
            with n code have "re_search TYPE_RE code = None"
              by (simp add: file_fqn_def split: option.splits)
            with "3.IH"(3) code Some e show ?thesis by simp
          qed
        qed
      next
        fix fqn assume s: "file_fqn w f = Some fqn"
        then obtain code pkg cls where c: "os_read w'' f = Some code"
            "re_search PACKAGE_RE code = Some pkg" "re_search TYPE_RE code = Some cls"
            "m_group code pkg 1 @ ''.'' @ m_group code cls 2 = fqn"
          using e by (auto simp: file_fqn_def split: option.splits)
        from "3.IH"(4) [OF c(1,2,3) c(4) [symmetric]] e
        show "P fqn (d' - 1) (Some vis') (c' + 1)" by simp
      next
        fix fqn assume s: "file_fqn w f = Some fqn"
        then obtain code pkg cls where c: "os_read w'' f = Some code"
            "re_search PACKAGE_RE code = Some pkg" "re_search TYPE_RE code = Some cls"
            "m_group code pkg 1 @ ''.'' @ m_group code cls 2 = fqn"
          using e by (auto simp: file_fqn_def split: option.splits)
        let ?r = "recursive_reverse_dependencies w'' r'' fqn (d' - 1) i'' l'' (Some vis')
                    (c' + 1)"
        have p: "(fst ?r, snd ?r) = ?r" by simp
        from "3.IH"(5) [OF c(1,2,3) c(4) [symmetric] refl p] e
        show "Q d' c' fs
                ((res' @ [f]) @
                   fst (recursive_reverse_dependencies w repo_path fqn (d' - 1) include_tests
                          limit (Some vis') (c' + 1)))
                (snd (recursive_reverse_dependencies w repo_path fqn (d' - 1) include_tests
                        limit (Some vis') (c' + 1)))"
          by simp
      qed
    qed
  qed
  from a show "P target_fqn depth visited current_depth" by blast
  from b show "Q depth current_depth fs results vis" by blast
qed

section \<open>The depth bound\<close>

lemma set_within_hops_Suc:
  "set (within_hops w repo_path include_tests (Suc n) target_fqn) =
     set (find_reverse_dependencies w repo_path target_fqn include_tests)
     \<union> expansions w repo_path include_tests n
         (find_reverse_dependencies w repo_path target_fqn include_tests)"
  by (auto simp: expansions_def Let_def split: option.splits)

lemma expansions_Cons:
  "expansions w repo_path include_tests n (f # fs) =
     (case file_fqn w f of
        None \<Rightarrow> {}
      | Some fqn \<Rightarrow> set (within_hops w repo_path include_tests n fqn))
     \<union> expansions w repo_path include_tests n fs"
  by (simp add: expansions_def)

lemma expansions_mono:
  "set fs \<subseteq> set gs \<Longrightarrow>
   expansions w repo_path include_tests n fs \<subseteq> expansions w repo_path include_tests n gs"
  by (auto simp: expansions_def)

lemma rrd_within_hops_aux:
  "set (fst (recursive_reverse_dependencies w repo_path target_fqn depth include_tests limit
               visited current_depth))
     \<subseteq> set (within_hops w repo_path include_tests (nat depth) target_fqn)"
  "0 < depth \<longrightarrow>
   set (fst (rrd_loop w repo_path depth include_tests limit current_depth fs results vis))
     \<subseteq> set results \<union> set fs \<union> expansions w repo_path include_tests (nat (depth - 1)) fs"
proof (induct target_fqn depth visited current_depth and depth current_depth fs results vis
       rule: rrd_induct [where w = w and repo_path = repo_path
                           and include_tests = include_tests and limit = limit])
  case (expand target_fqn depth visited current_depth)
  let ?v0 = "case visited of None \<Rightarrow> {} | Some v \<Rightarrow> v"
  let ?all = "find_reverse_dependencies w repo_path target_fqn include_tests"
  let ?files = "limit_files limit ?all"
  show ?case
  proof (cases "depth \<le> 0 \<or> (target_fqn, current_depth) \<in> ?v0")
    case True
    then have "fst (recursive_reverse_dependencies w repo_path target_fqn depth include_tests
                      limit visited current_depth) = []"
      by (simp add: rrd_unfold)
    then show ?thesis by simp
  next
    case False
    then have d: "0 < depth" and nv: "(target_fqn, current_depth) \<notin> ?v0" by auto
    from d have n: "nat depth = Suc (nat (depth - 1))" by simp
    have eq: "set (fst (recursive_reverse_dependencies w repo_path target_fqn depth
                          include_tests limit visited current_depth)) =
              set (fst (rrd_loop w repo_path depth include_tests limit current_depth ?files []
                          (insert (target_fqn, current_depth) ?v0)))"
      using False by (simp add: rrd_unfold set_py_list_set)
    from expand [OF d nv] d
    have ih: "set (fst (rrd_loop w repo_path depth include_tests limit current_depth ?files []
                          (insert (target_fqn, current_depth) ?v0)))
                \<subseteq> set ?files \<union> expansions w repo_path include_tests (nat (depth - 1)) ?files"
      by simp
    have sub: "set ?files \<subseteq> set ?all" by (rule set_limit_files)
    from expansions_mono [OF sub]
    have sub': "expansions w repo_path include_tests (nat (depth - 1)) ?files
                  \<subseteq> expansions w repo_path include_tests (nat (depth - 1)) ?all" .
    have "set (within_hops w repo_path include_tests (nat depth) target_fqn) =
            set ?all \<union> expansions w repo_path include_tests (nat (depth - 1)) ?all"
      unfolding n by (rule set_within_hops_Suc)
    with eq ih sub sub' show ?thesis by blast
  qed
next
  case (empty depth current_depth results vis)
  show ?case by simp
next
  case (step depth current_depth f fs results vis)
  show ?case
  proof
    assume d: "0 < depth"
    show "set (fst (rrd_loop w repo_path depth include_tests limit current_depth (f # fs)
                      results vis))
            \<subseteq> set results \<union> set (f # fs)
               \<union> expansions w repo_path include_tests (nat (depth - 1)) (f # fs)"
    proof (cases "file_fqn w f")
      case None
      from step(1) [OF None] d
      have "set (fst (rrd_loop w repo_path depth include_tests limit current_depth fs
                        (results @ [f]) vis))
              \<subseteq> set (results @ [f]) \<union> set fs
                 \<union> expansions w repo_path include_tests (nat (depth - 1)) fs"
        by simp
      then show ?thesis
        unfolding rrd_loop_step_None [OF None] expansions_Cons by auto
    next
      case (Some fqn)
      let ?sub = "fst (recursive_reverse_dependencies w repo_path fqn (depth - 1) include_tests
                         limit (Some vis) (current_depth + 1))"
      let ?v1 = "snd (recursive_reverse_dependencies w repo_path fqn (depth - 1) include_tests
                        limit (Some vis) (current_depth + 1))"
      from step(2) [OF Some]
      have a: "set ?sub \<subseteq> set (within_hops w repo_path include_tests (nat (depth - 1)) fqn)" .
      from step(3) [OF Some] d
      have b: "set (fst (rrd_loop w repo_path depth include_tests limit current_depth fs
                           ((results @ [f]) @ ?sub) ?v1))
                 \<subseteq> set ((results @ [f]) @ ?sub) \<union> set fs
                    \<union> expansions w repo_path include_tests (nat (depth - 1)) fs"
        by simp
      have c: "expansions w repo_path include_tests (nat (depth - 1)) (f # fs) =
                 set (within_hops w repo_path include_tests (nat (depth - 1)) fqn)
                 \<union> expansions w repo_path include_tests (nat (depth - 1)) fs"
        by (simp add: expansions_Cons Some)
      have e: "set ((results @ [f]) @ ?sub) = set results \<union> {f} \<union> set ?sub" by auto
      show ?thesis
        unfolding rrd_loop_step_Some [OF Some] c
        using a b unfolding e by auto
    qed
  qed
qed

lemma rrd_loop_keeps:
  "set results \<union> set fs
     \<subseteq> set (fst (rrd_loop w repo_path depth include_tests limit current_depth fs results vis))"
proof (induction fs arbitrary: results vis)
  case Nil
  show ?case by simp
next
  case (Cons f fs)
  show ?case
  proof (cases "file_fqn w f")
    case None
    from Cons [of "results @ [f]" vis] show ?thesis
      unfolding rrd_loop_step_None [OF None] by auto
  next
    case (Some fqn)
    let ?sub = "fst (recursive_reverse_dependencies w repo_path fqn (depth - 1) include_tests
                       limit (Some vis) (current_depth + 1))"
    let ?v1 = "snd (recursive_reverse_dependencies w repo_path fqn (depth - 1) include_tests
                      limit (Some vis) (current_depth + 1))"
    from Cons [of "(results @ [f]) @ ?sub" ?v1] show ?thesis
      unfolding rrd_loop_step_Some [OF Some] by auto
  qed
qed

subsection \<open>The four-class chain, evaluated\<close>

lemma chain_order: "set_order chain_repo = remdups"
  by (simp add: chain_repo_def tree_repo_def)

lemma chain_frd_A: "find_reverse_dependencies chain_repo ''/r'' ''p.A'' False = [''/r/B.java'']"
  by code_simp

lemma chain_frd_B: "find_reverse_dependencies chain_repo ''/r'' ''p.B'' False = [''/r/C.java'']"
  by code_simp

lemma chain_fqn_B: "file_fqn chain_repo ''/r/B.java'' = Some ''p.B''"
  by code_simp

lemma chain_fqn_C: "file_fqn chain_repo ''/r/C.java'' = Some ''p.C''"
  by code_simp

lemma chain_rrd:
  "fst (recursive_reverse_dependencies chain_repo ''/r'' ''p.A'' 2 False None None 1) =
     [''/r/B.java'', ''/r/C.java'']"
  by (simp add: recursive_reverse_dependencies.simps rrd_loop_step Let_def limit_files_def
        chain_frd_A chain_frd_B chain_fqn_B chain_fqn_C py_list_set_remdups [OF chain_order])

lemma chain_hops:
  "within_hops chain_repo ''/r'' False (Suc (Suc 0)) ''p.A'' = [''/r/B.java'', ''/r/C.java'']"
  by (simp add: chain_frd_A chain_frd_B chain_fqn_B chain_fqn_C)

text \<open>
  C3: the traversal returns nothing for a depth of 0 or less, and for any depth \<open>d\<close>
  every file that it returns is within \<open>d\<close> reverse-dependency hops of the target; a file
  that needs more hops is not returned. From \<open>A\<close> in the chain, depth 2 returns \<open>B\<close> and
  \<open>C\<close>, and \<open>D\<close> is three hops away.
\<close>

theorem rrd_depth_bound:
  "(depth \<le> 0 \<longrightarrow>
      fst (recursive_reverse_dependencies w repo_path target_fqn depth include_tests limit
             visited current_depth) = [])
   \<and> set (fst (recursive_reverse_dependencies w repo_path target_fqn depth include_tests limit
                 visited current_depth))
       \<subseteq> set (within_hops w repo_path include_tests (nat depth) target_fqn)"
  using rrd_within_hops_aux(1) [of w repo_path target_fqn depth include_tests limit visited
          current_depth]
  by (simp add: rrd_unfold)

theorem rrd_depth_bound_witness:
  "(0 :: int) \<le> 0
   \<and> fst (recursive_reverse_dependencies chain_repo ''/r'' ''p.A'' 0 False None None 1) = []
   \<and> fst (recursive_reverse_dependencies chain_repo ''/r'' ''p.A'' 2 False None None 1) =
       [''/r/B.java'', ''/r/C.java'']
   \<and> ''/r/D.java'' \<notin> set (within_hops chain_repo ''/r'' False (nat 2) ''p.A'')
   \<and> ''/r/D.java'' \<notin> set (fst (recursive_reverse_dependencies chain_repo ''/r'' ''p.A'' 2 False
                                   None None 1))"
proof -
  have n: "nat 2 = Suc (Suc 0)" by simp
  have d: "''/r/D.java'' \<notin> set (within_hops chain_repo ''/r'' False (nat 2) ''p.A'')"
    unfolding n chain_hops by simp
  from rrd_depth_bound [of 0 chain_repo "''/r''" "''p.A''" False None None 1]
  have z: "fst (recursive_reverse_dependencies chain_repo ''/r'' ''p.A'' 0 False None None 1) = []"
    by simp
  from rrd_depth_bound [of 2 chain_repo "''/r''" "''p.A''" False None None 1] d
  have "''/r/D.java'' \<notin> set (fst (recursive_reverse_dependencies chain_repo ''/r'' ''p.A'' 2
                                     False None None 1))"
    by blast
  with z d chain_rrd show ?thesis by simp
qed

section \<open>Files that cannot be read\<close>

lemma frd_file_unreadable:
  "os_read w (path_join root f) = None \<Longrightarrow>
   frd_file w target_fqn base_name package_name include_tests root f = []"
  by (simp add: frd_file_def Let_def)

lemma frd_file_readable:
  "os_read w p \<noteq> None"
  if "p \<in> set (frd_file w target_fqn base_name package_name include_tests root f)"
proof (cases "os_read w (path_join root f)")
  case None
  with that show ?thesis by (simp add: frd_file_unreadable)
next
  case (Some content)
  have "set (frd_file w target_fqn base_name package_name include_tests root f)
          \<subseteq> {path_join root f}"
    by (auto simp: frd_file_def Let_def split: if_splits option.splits)
  with that have "p = path_join root f" by blast
  with Some show ?thesis by simp
qed

lemma frd_readable:
  "p \<in> set (find_reverse_dependencies w repo_path target_fqn include_tests) \<Longrightarrow>
   os_read w p \<noteq> None"
  unfolding find_reverse_dependencies_def set_py_list_set frd_scan_def Let_def
  by (auto dest: frd_file_readable)

lemma within_hops_readable:
  "p \<in> set (within_hops w repo_path include_tests n target_fqn) \<Longrightarrow> os_read w p \<noteq> None"
proof (induction n arbitrary: target_fqn)
  case 0
  then show ?case by simp
next
  case (Suc n)
  from Suc.prems
  consider "p \<in> set (find_reverse_dependencies w repo_path target_fqn include_tests)"
    | g fqn where "file_fqn w g = Some fqn"
        "p \<in> set (within_hops w repo_path include_tests n fqn)"
    unfolding set_within_hops_Suc expansions_def by (auto split: option.splits)
  then show ?case
  proof cases
    case 1
    then show ?thesis by (rule frd_readable)
  next
    case 2
    from Suc.IH [OF 2(2)] show ?thesis .
  qed
qed



section \<open>The expansions of a traversal\<close>

lemma rrd_trace_unfold:
  "rrd_trace w repo_path target_fqn depth include_tests limit visited current_depth =
   (if depth \<le> 0 \<or> (target_fqn, current_depth) \<in> (case visited of None \<Rightarrow> {} | Some v \<Rightarrow> v)
    then (case visited of None \<Rightarrow> {} | Some v \<Rightarrow> v, [])
    else (fst (rrd_trace_loop w repo_path depth include_tests limit current_depth
                 (limit_files limit
                    (find_reverse_dependencies w repo_path target_fqn include_tests))
                 (insert (target_fqn, current_depth)
                    (case visited of None \<Rightarrow> {} | Some v \<Rightarrow> v))),
          (target_fqn, current_depth) #
          snd (rrd_trace_loop w repo_path depth include_tests limit current_depth
                 (limit_files limit
                    (find_reverse_dependencies w repo_path target_fqn include_tests))
                 (insert (target_fqn, current_depth)
                    (case visited of None \<Rightarrow> {} | Some v \<Rightarrow> v)))))"
  by (simp add: rrd_trace.simps Let_def split: prod.splits)

lemma rrd_trace_loop_step_None:
  "file_fqn w f = None \<Longrightarrow>
   rrd_trace_loop w repo_path depth include_tests limit current_depth (f # fs) visited =
   rrd_trace_loop w repo_path depth include_tests limit current_depth fs visited"
  by (auto simp: file_fqn_def rrd_trace_loop.simps(2) split: option.splits)

lemma rrd_trace_loop_step_Some:
  "file_fqn w f = Some fqn \<Longrightarrow>
   rrd_trace_loop w repo_path depth include_tests limit current_depth (f # fs) visited =
   (fst (rrd_trace_loop w repo_path depth include_tests limit current_depth fs
           (fst (rrd_trace w repo_path fqn (depth - 1) include_tests limit (Some visited)
                   (current_depth + 1)))),
    snd (rrd_trace w repo_path fqn (depth - 1) include_tests limit (Some visited)
           (current_depth + 1))
    @ snd (rrd_trace_loop w repo_path depth include_tests limit current_depth fs
             (fst (rrd_trace w repo_path fqn (depth - 1) include_tests limit (Some visited)
                     (current_depth + 1)))))"
  by (auto simp: file_fqn_def rrd_trace_loop.simps(2) Let_def split: option.splits prod.splits)

lemma rrd_trace_induct [case_names expand empty step]:
  assumes expand: "\<And>target_fqn depth visited current_depth.
      (0 < depth \<Longrightarrow>
       (target_fqn, current_depth) \<notin> (case visited of None \<Rightarrow> {} | Some v \<Rightarrow> v) \<Longrightarrow>
       Q depth current_depth
         (limit_files limit (find_reverse_dependencies w repo_path target_fqn include_tests))
         (insert (target_fqn, current_depth) (case visited of None \<Rightarrow> {} | Some v \<Rightarrow> v)))
      \<Longrightarrow> P target_fqn depth visited current_depth"
    and empty: "\<And>depth current_depth vis. Q depth current_depth [] vis"
    and step: "\<And>depth current_depth f fs vis.
      (file_fqn w f = None \<Longrightarrow> Q depth current_depth fs vis) \<Longrightarrow>
      (\<And>fqn. file_fqn w f = Some fqn \<Longrightarrow>
         P fqn (depth - 1) (Some vis) (current_depth + 1)) \<Longrightarrow>
      (\<And>fqn. file_fqn w f = Some fqn \<Longrightarrow>
         Q depth current_depth fs
           (fst (rrd_trace w repo_path fqn (depth - 1) include_tests limit (Some vis)
                   (current_depth + 1)))) \<Longrightarrow>
      Q depth current_depth (f # fs) vis"
  shows "P target_fqn depth visited current_depth"
    and "Q depth current_depth fs vis"
proof -
  have a: "w' = w \<and> r' = repo_path \<and> i' = include_tests \<and> l' = limit \<longrightarrow> P f d v c"
    and b: "w'' = w \<and> r'' = repo_path \<and> i'' = include_tests \<and> l'' = limit
              \<longrightarrow> Q d' c' fs' vis'"
    for w' r' f d i' l' v c w'' r'' d' i'' l'' c' fs' vis'
  proof (induction w' r' f d i' l' v c and w'' r'' d' i'' l'' c' fs' vis'
         rule: rrd_trace_rrd_trace_loop.induct)
    case (1 w' r' f d i' l' v c)
    show ?case
    proof
      assume e: "w' = w \<and> r' = repo_path \<and> i' = include_tests \<and> l' = limit"
      show "P f d v c"
      proof (rule expand)
        assume "0 < d" and "(f, c) \<notin> (case v of None \<Rightarrow> {} | Some v \<Rightarrow> v)"
        with "1.IH" [OF refl _ _ refl refl] e
        show "Q d c (limit_files limit (find_reverse_dependencies w repo_path f include_tests))
                (insert (f, c) (case v of None \<Rightarrow> {} | Some v \<Rightarrow> v))"
          by simp
      qed
    qed
  next
    case (2 w'' r'' d' i'' l'' c' vis')
    show ?case by (simp add: empty)
  next
    case (3 w'' r'' d' i'' l'' c' f fs vis')
    show ?case
    proof
      assume e: "w'' = w \<and> r'' = repo_path \<and> i'' = include_tests \<and> l'' = limit"
      show "Q d' c' (f # fs) vis'"
      proof (rule step)
        assume n: "file_fqn w f = None"
        show "Q d' c' fs vis'"
        proof (cases "os_read w f")
          case None
          with "3.IH"(1) e show ?thesis by simp
        next
          case (Some code)
          note code = this
          show ?thesis
          proof (cases "re_search PACKAGE_RE code")
            case None
            with "3.IH"(2) code e show ?thesis by simp
          next
            case (Some pkg)
            with n code have "re_search TYPE_RE code = None"
              by (simp add: file_fqn_def split: option.splits)
            with "3.IH"(3) code Some e show ?thesis by simp
          qed
        qed
      next
        fix fqn assume s: "file_fqn w f = Some fqn"
        then obtain code pkg cls where c: "os_read w'' f = Some code"
            "re_search PACKAGE_RE code = Some pkg" "re_search TYPE_RE code = Some cls"
            "m_group code pkg 1 @ ''.'' @ m_group code cls 2 = fqn"
          using e by (auto simp: file_fqn_def split: option.splits)
        from "3.IH"(4) [OF c(1,2,3) c(4) [symmetric]] e
        show "P fqn (d' - 1) (Some vis') (c' + 1)" by simp
      next
        fix fqn assume s: "file_fqn w f = Some fqn"
        then obtain code pkg cls where c: "os_read w'' f = Some code"
            "re_search PACKAGE_RE code = Some pkg" "re_search TYPE_RE code = Some cls"
            "m_group code pkg 1 @ ''.'' @ m_group code cls 2 = fqn"
          using e by (auto simp: file_fqn_def split: option.splits)
        let ?r = "rrd_trace w'' r'' fqn (d' - 1) i'' l'' (Some vis') (c' + 1)"
        have p: "(fst ?r, snd ?r) = ?r" by simp
        from "3.IH"(5) [OF c(1,2,3) c(4) [symmetric] refl p] e
        show "Q d' c' fs
                (fst (rrd_trace w repo_path fqn (d' - 1) include_tests limit (Some vis')
                        (c' + 1)))"
          by simp
      qed
    qed
  qed
  from a show "P target_fqn depth visited current_depth" by blast
  from b show "Q depth current_depth fs vis" by blast
qed


lemma rrd_trace_distinct_aux:
  "fst (rrd_trace w repo_path target_fqn depth include_tests limit visited current_depth) =
     (case visited of None \<Rightarrow> {} | Some v \<Rightarrow> v)
     \<union> set (snd (rrd_trace w repo_path target_fqn depth include_tests limit visited
                   current_depth))
   \<and> distinct (snd (rrd_trace w repo_path target_fqn depth include_tests limit visited
                      current_depth))
   \<and> set (snd (rrd_trace w repo_path target_fqn depth include_tests limit visited
                 current_depth))
       \<inter> (case visited of None \<Rightarrow> {} | Some v \<Rightarrow> v) = {}"
  "fst (rrd_trace_loop w repo_path depth include_tests limit current_depth fs vis) =
     vis \<union> set (snd (rrd_trace_loop w repo_path depth include_tests limit current_depth fs vis))
   \<and> distinct (snd (rrd_trace_loop w repo_path depth include_tests limit current_depth fs vis))
   \<and> set (snd (rrd_trace_loop w repo_path depth include_tests limit current_depth fs vis))
       \<inter> vis = {}"
proof (induct target_fqn depth visited current_depth and depth current_depth fs vis
       rule: rrd_trace_induct [where w = w and repo_path = repo_path
                                 and include_tests = include_tests and limit = limit])
  case (expand target_fqn depth visited current_depth)
  let ?v0 = "case visited of None \<Rightarrow> {} | Some v \<Rightarrow> v"
  show ?case
  proof (cases "depth \<le> 0 \<or> (target_fqn, current_depth) \<in> ?v0")
    case True
    then show ?thesis by (simp add: rrd_trace_unfold)
  next
    case False
    then have d: "0 < depth" and nv: "(target_fqn, current_depth) \<notin> ?v0" by auto
    let ?l = "rrd_trace_loop w repo_path depth include_tests limit current_depth
                (limit_files limit
                   (find_reverse_dependencies w repo_path target_fqn include_tests))
                (insert (target_fqn, current_depth) ?v0)"
    from expand [OF d nv]
    have l: "fst ?l = insert (target_fqn, current_depth) ?v0 \<union> set (snd ?l)"
      "distinct (snd ?l)" "set (snd ?l) \<inter> insert (target_fqn, current_depth) ?v0 = {}"
      by blast+
    have u: "rrd_trace w repo_path target_fqn depth include_tests limit visited current_depth
               = (fst ?l, (target_fqn, current_depth) # snd ?l)"
      using False by (simp add: rrd_trace_unfold)
    show ?thesis
      unfolding u using l nv by auto
  qed
next
  case (empty depth current_depth vis)
  show ?case by simp
next
  case (step depth current_depth f fs vis)
  show ?case
  proof (cases "file_fqn w f")
    case None
    from step(1) [OF None] show ?thesis
      by (simp add: rrd_trace_loop_step_None [OF None])
  next
    case (Some fqn)
    let ?r = "rrd_trace w repo_path fqn (depth - 1) include_tests limit (Some vis)
                (current_depth + 1)"
    let ?l = "rrd_trace_loop w repo_path depth include_tests limit current_depth fs (fst ?r)"
    from step(2) [OF Some]
    have r: "fst ?r = vis \<union> set (snd ?r)" "distinct (snd ?r)" "set (snd ?r) \<inter> vis = {}"
      by simp_all
    from step(3) [OF Some]
    have l: "fst ?l = fst ?r \<union> set (snd ?l)" "distinct (snd ?l)"
      "set (snd ?l) \<inter> fst ?r = {}"
      by blast+
    have u: "rrd_trace_loop w repo_path depth include_tests limit current_depth (f # fs) vis
               = (fst ?l, snd ?r @ snd ?l)"
      by (rule rrd_trace_loop_step_Some [OF Some])
    show ?thesis
      unfolding u using r l by auto
  qed
qed


subsection \<open>Traces of the examples\<close>












section \<open>The context bundle\<close>

lemma emit_import_files_ok:
  "emitted_ok b \<Longrightarrow> emit_import_files w imp ps b = Inr b' \<Longrightarrow> emitted_ok b'"
proof (induction ps arbitrary: b)
  case Nil
  then show ?case by simp
next
  case (Cons p ps)
  obtain seen chunks where b: "b = (seen, chunks)" by (cases b)
  show ?case
  proof (cases "p \<in> seen")
    case True
    with Cons.prems b Cons.IH [of b] show ?thesis by simp
  next
    case False
    with Cons.prems b obtain code_text where r: "os_read w p = Some code_text"
      by (cases "os_read w p") auto
    let ?b = "(insert p seen,
               chunks @ [\<lparr>chunk_kind = IMPORT imp, chunk_path = p,
                          chunk_text = extract_full_type code_text\<rparr>])"
    have ok: "emitted_ok ?b"
      using Cons.prems(1) False b by (auto simp: emitted_ok_def)
    have "emit_import_files w imp ps ?b = Inr b'"
      using Cons.prems(2) False b r by simp
    from Cons.IH [OF ok this] show ?thesis .
  qed
qed

lemma emit_imports_ok:
  "emitted_ok b \<Longrightarrow> emit_imports w repo_path imps b = Inr b' \<Longrightarrow> emitted_ok b'"
proof (induction imps arbitrary: b)
  case Nil
  then show ?case by simp
next
  case (Cons imp imps)
  from Cons.prems(2) obtain b1
    where s: "emit_import_files w imp (resolve_import w imp repo_path) b = Inr b1"
      and t: "emit_imports w repo_path imps b1 = Inr b'"
    by (cases "emit_import_files w imp (resolve_import w imp repo_path) b") auto
  from Cons.IH [OF emit_import_files_ok [OF Cons.prems(1) s] t] show ?case .
qed

lemma emit_files_ok:
  "emitted_ok b \<Longrightarrow> emit_files w k fs b = Inr b' \<Longrightarrow> emitted_ok b'"
proof (induction fs arbitrary: b)
  case Nil
  then show ?case by simp
next
  case (Cons f fs)
  obtain seen chunks where b: "b = (seen, chunks)" by (cases b)
  show ?case
  proof (cases "f \<in> seen")
    case True
    with Cons.prems b Cons.IH [of b] show ?thesis by simp
  next
    case False
    with Cons.prems b obtain src where r: "os_read w f = Some src"
      by (cases "os_read w f") auto
    let ?b = "(insert f seen, chunks @ [\<lparr>chunk_kind = k, chunk_path = f, chunk_text = src\<rparr>])"
    have ok: "emitted_ok ?b"
      using Cons.prems(1) False b by (auto simp: emitted_ok_def)
    have "emit_files w k fs ?b = Inr b'"
      using Cons.prems(2) False b r by simp
    from Cons.IH [OF ok this] show ?thesis .
  qed
qed

lemma prepare_targets_ok:
  "emitted_ok b \<Longrightarrow>
   prepare_targets w repo_path depth include_tests reverse_limit ts b = Inr b' \<Longrightarrow>
   emitted_ok b'"
proof (induction ts arbitrary: b)
  case Nil
  then show ?case by simp
next
  case (Cons t ts)
  let ?full = "path_join repo_path t"
  show ?case
  proof (cases "os_exists w ?full")
    case False
    with Cons.prems(2) have "prepare_targets w repo_path depth include_tests reverse_limit ts b
                               = Inr b'"
      by (simp add: Let_def)
    from Cons.IH [OF Cons.prems(1) this] show ?thesis .
  next
    case True
    with Cons.prems(2) obtain code where code: "os_read w ?full = Some code"
      by (cases "os_read w ?full") (auto simp: Let_def)
    let ?cls = "map_option (\<lambda>m. m_group code m 2) (re_search TYPE_RE code)"
    let ?pkg = "map_option (\<lambda>m. m_group code m 1) (re_search PACKAGE_RE code)"
    from Cons.prems(2) True code obtain b1 b2 b3 b4
      where s1: "emit_imports w repo_path (fst (extract_imports_and_used code)) b = Inr b1"
        and s2: "emit_files w EXTENDS_IMPLEMENTS
                   (find_inheritance_dependencies w code repo_path) b1 = Inr b2"
        and s3: "emit_reverse w repo_path depth include_tests reverse_limit
                   (qualified_name ?pkg ?cls) b2 = Inr b3"
        and s4: "emit_beans w repo_path ?cls b3 = Inr b4"
        and s5: "prepare_targets w repo_path depth include_tests reverse_limit ts b4 = Inr b'"
      by (auto simp: Let_def split: sum.splits)
    have ok1: "emitted_ok b1" by (rule emit_imports_ok [OF Cons.prems(1) s1])
    have ok2: "emitted_ok b2" by (rule emit_files_ok [OF ok1 s2])
    have ok3: "emitted_ok b3"
      using s3 ok2
      by (auto simp: emit_reverse_def split: option.splits if_splits dest: emit_files_ok)
    have ok4: "emitted_ok b4"
      using s4 ok3
      by (auto simp: emit_beans_def split: option.splits if_splits dest: emit_files_ok)
    from Cons.IH [OF ok4 s5] show ?thesis .
  qed
qed

text \<open>
  C4: in one run no two chunks carry the same path, whatever the target files and the
  categories that emitted them; the paths of the chunks are the files counted as seen.
\<close>

theorem context_paths_distinct:
  "prepare_context_chunks w repo_path target_files depth include_tests reverse_limit =
     Inr (seen_files, output_chunks) \<Longrightarrow>
   distinct (map chunk_path output_chunks)
   \<and> set (map chunk_path output_chunks) = seen_files"
  using prepare_targets_ok [of "({}, [])" w repo_path depth include_tests reverse_limit
          target_files "(seen_files, output_chunks)"]
  by (simp add: prepare_context_chunks_def emitted_ok_def)

lemma maven_chunks:
  "prepare_context_chunks maven_repo ''/r'' [''T.java''] 1 False None =
     Inr ({''/r/src/main/java/p/A.java''},
          [\<lparr>chunk_kind = IMPORT ''p.A'', chunk_path = ''/r/src/main/java/p/A.java'',
            chunk_text = ''class A{}''\<rparr>])"
  by code_simp

theorem context_paths_distinct_witness:
  "prepare_context_chunks maven_repo ''/r'' [''T.java''] 1 False None =
     Inr ({''/r/src/main/java/p/A.java''},
          [\<lparr>chunk_kind = IMPORT ''p.A'', chunk_path = ''/r/src/main/java/p/A.java'',
            chunk_text = ''class A{}''\<rparr>])
   \<and> fst (extract_imports_and_used ''import p.A;\<newline>import p.*;\<newline>'') = [''p.A'', ''p.*'']
   \<and> distinct (map chunk_path
        [\<lparr>chunk_kind = IMPORT ''p.A'', chunk_path = ''/r/src/main/java/p/A.java'',
          chunk_text = ''class A{}''\<rparr>])"
proof -
  have i: "fst (extract_imports_and_used ''import p.A;\<newline>import p.*;\<newline>'') = [''p.A'', ''p.*'']"
    by code_simp
  from context_paths_distinct [OF maven_chunks] maven_chunks i show ?thesis by blast
qed

section \<open>What a traversal records and what it expands\<close>

lemma rrd_trace_grows:
  "(case visited of None \<Rightarrow> {} | Some v \<Rightarrow> v)
     \<subseteq> fst (rrd_trace w repo_path target_fqn depth include_tests limit visited current_depth)"
  using rrd_trace_distinct_aux(1) [of w repo_path target_fqn depth include_tests limit visited
          current_depth]
  by blast

lemma rrd_trace_loop_grows:
  "vis \<subseteq> fst (rrd_trace_loop w repo_path depth include_tests limit current_depth fs vis)"
  using rrd_trace_distinct_aux(2) [of w repo_path depth include_tests limit current_depth fs vis]
  by blast

lemma rrd_trace_marks:
  assumes "0 < depth"
  shows "(target_fqn, current_depth)
           \<in> fst (rrd_trace w repo_path target_fqn depth include_tests limit visited
                     current_depth)"
proof (cases "(target_fqn, current_depth) \<in> (case visited of None \<Rightarrow> {} | Some v \<Rightarrow> v)")
  case True
  then show ?thesis by (simp add: rrd_trace_unfold)
next
  case False
  let ?v1 = "insert (target_fqn, current_depth) (case visited of None \<Rightarrow> {} | Some v \<Rightarrow> v)"
  let ?files = "limit_files limit
                  (find_reverse_dependencies w repo_path target_fqn include_tests)"
  have "?v1 \<subseteq> fst (rrd_trace_loop w repo_path depth include_tests limit current_depth ?files
                       ?v1)"
    by (rule rrd_trace_loop_grows)
  with False assms show ?thesis by (simp add: rrd_trace_unfold)
qed

lemma rrd_trace_loop_marks:
  assumes "1 < depth" and "file_fqn w g = Some q"
  shows "g \<in> set fs \<Longrightarrow>
         (q, current_depth + 1)
           \<in> fst (rrd_trace_loop w repo_path depth include_tests limit current_depth fs vis)"
proof (induction fs arbitrary: vis)
  case Nil
  then show ?case by simp
next
  case (Cons f fs)
  show ?case
  proof (cases "file_fqn w f")
    case None
    with assms(2) have "g \<noteq> f" by auto
    with Cons.prems have "g \<in> set fs" by simp
    from Cons.IH [OF this] show ?thesis
      by (simp add: rrd_trace_loop_step_None [OF None])
  next
    case (Some fqn)
    let ?v1 = "fst (rrd_trace w repo_path fqn (depth - 1) include_tests limit (Some vis)
                      (current_depth + 1))"
    have u: "fst (rrd_trace_loop w repo_path depth include_tests limit current_depth (f # fs)
                    vis) =
             fst (rrd_trace_loop w repo_path depth include_tests limit current_depth fs ?v1)"
      by (simp add: rrd_trace_loop_step_Some [OF Some])
    show ?thesis
    proof (cases "g = f")
      case True
      with Some assms(2) have "fqn = q" by simp
      moreover from assms(1) have "0 < depth - 1" by simp
      ultimately have "(q, current_depth + 1) \<in> ?v1"
        using rrd_trace_marks [of "depth - 1" fqn "current_depth + 1" w repo_path include_tests
                limit "Some vis"]
        by simp
      moreover have "?v1 \<subseteq> fst (rrd_trace_loop w repo_path depth include_tests limit
                                  current_depth fs ?v1)"
        by (rule rrd_trace_loop_grows)
      ultimately show ?thesis unfolding u by blast
    next
      case False
      with Cons.prems have "g \<in> set fs" by simp
      from Cons.IH [OF this] show ?thesis unfolding u .
    qed
  qed
qed

lemma rrd_records_files:
  assumes "0 < depth"
    and "(target_fqn, current_depth) \<notin> (case visited of None \<Rightarrow> {} | Some v \<Rightarrow> v)"
  shows "set (limit_files limit
                (find_reverse_dependencies w repo_path target_fqn include_tests))
           \<subseteq> set (fst (recursive_reverse_dependencies w repo_path target_fqn depth
                          include_tests limit visited current_depth))"
proof -
  let ?files = "limit_files limit
                  (find_reverse_dependencies w repo_path target_fqn include_tests)"
  let ?v1 = "insert (target_fqn, current_depth) (case visited of None \<Rightarrow> {} | Some v \<Rightarrow> v)"
  have "set (fst (recursive_reverse_dependencies w repo_path target_fqn depth include_tests
                    limit visited current_depth)) =
        set (fst (rrd_loop w repo_path depth include_tests limit current_depth ?files [] ?v1))"
    using assms by (simp add: rrd_unfold set_py_list_set)
  moreover have "set ?files
                   \<subseteq> set (fst (rrd_loop w repo_path depth include_tests limit current_depth
                                  ?files [] ?v1))"
    using rrd_loop_keeps [of "[]" ?files w repo_path depth include_tests limit current_depth
            ?v1]
    by simp
  ultimately show ?thesis by simp
qed

lemma rrd_expands_files:
  assumes "1 < depth" and "file_fqn w g = Some q"
    and "g \<in> set (limit_files limit
                    (find_reverse_dependencies w repo_path target_fqn include_tests))"
  shows "(q, current_depth + 1)
           \<in> set (snd (rrd_trace w repo_path target_fqn depth include_tests limit None
                          current_depth))"
proof -
  let ?files = "limit_files limit
                  (find_reverse_dependencies w repo_path target_fqn include_tests)"
  let ?v1 = "insert (target_fqn, current_depth) {}"
  let ?l = "rrd_trace_loop w repo_path depth include_tests limit current_depth ?files ?v1"
  have t: "snd (rrd_trace w repo_path target_fqn depth include_tests limit None current_depth)
             = (target_fqn, current_depth) # snd ?l"
    using assms(1) by (simp add: rrd_trace_unfold)
  have "(q, current_depth + 1) \<in> fst ?l"
    by (rule rrd_trace_loop_marks [OF assms(1,2,3)])
  moreover have "fst ?l = ?v1 \<union> set (snd ?l)"
    using rrd_trace_distinct_aux(2) [of w repo_path depth include_tests limit current_depth
            ?files ?v1]
    by blast
  ultimately have "(q, current_depth + 1) \<in> set (snd ?l)" by auto
  then show ?thesis unfolding t by simp
qed

subsection \<open>The repository with a file outside any package, evaluated\<close>

lemma nopkg_order: "set_order nopkg_repo = remdups"
  by (simp add: nopkg_repo_def tree_repo_def)

lemma nopkg_frd_A: "find_reverse_dependencies nopkg_repo ''/r'' ''p.A'' False = [''/r/B.java'']"
  by code_simp

lemma nopkg_fqn_B: "file_fqn nopkg_repo ''/r/B.java'' = None"
  by code_simp

text \<open>
  C9, as the code has it: a fan-out limit of 0 is the same as no limit. \<open>if limit:\<close> is
  false for \<open>0\<close> as it is for \<open>None\<close>, so the list of files is not cut, and the
  traversal and the context built from it are those of a call without a limit. Every
  matching file of the target is recorded; a matching file is expanded at the next depth
  when a package and a type declaration are found in it and more than one level of depth
  remains.
\<close>

theorem limit_zero_is_no_limit:
  "limit_files (Some 0) files = files
   \<and> recursive_reverse_dependencies w repo_path target_fqn depth include_tests (Some 0) visited
       current_depth =
     recursive_reverse_dependencies w repo_path target_fqn depth include_tests None visited
       current_depth
   \<and> prepare_context_multi w repo_path target_files output_file depth include_tests (Some 0)
       return_string =
     prepare_context_multi w repo_path target_files output_file depth include_tests None
       return_string
   \<and> (0 < depth \<longrightarrow>
        set (find_reverse_dependencies w repo_path target_fqn include_tests)
          \<subseteq> set (fst (recursive_reverse_dependencies w repo_path target_fqn depth
                         include_tests (Some 0) None current_depth)))
   \<and> (1 < depth
        \<and> g \<in> set (find_reverse_dependencies w repo_path target_fqn include_tests)
        \<and> file_fqn w g = Some q \<longrightarrow>
        (q, current_depth + 1)
          \<in> set (snd (rrd_trace w repo_path target_fqn depth include_tests (Some 0) None
                         current_depth)))"
proof -
  have lf: "limit_files (Some 0) xs = xs" for xs :: "string list"
    by (simp add: limit_files_def)
  have a: "recursive_reverse_dependencies w repo_path target_fqn depth include_tests (Some 0)
             visited current_depth =
           recursive_reverse_dependencies w repo_path target_fqn depth include_tests None
             visited current_depth"
    using rrd_limit_zero_aux(1) [of None w repo_path target_fqn depth include_tests visited
            current_depth]
    by simp
  have b: "prepare_context_multi w repo_path target_files output_file depth include_tests
             (Some 0) return_string =
           prepare_context_multi w repo_path target_files output_file depth include_tests None
             return_string"
    by (simp add: prepare_context_multi_def prepare_context_chunks_def
          prepare_targets_limit_zero)
  have c: "set (find_reverse_dependencies w repo_path target_fqn include_tests)
             \<subseteq> set (fst (recursive_reverse_dependencies w repo_path target_fqn depth
                            include_tests (Some 0) None current_depth))"
    if "0 < depth"
    using rrd_records_files [of depth target_fqn current_depth None "Some 0" w repo_path
            include_tests] that
    by (simp add: lf)
  have d: "(q, current_depth + 1)
             \<in> set (snd (rrd_trace w repo_path target_fqn depth include_tests (Some 0) None
                            current_depth))"
    if "1 < depth" "g \<in> set (find_reverse_dependencies w repo_path target_fqn include_tests)"
      "file_fqn w g = Some q"
    using rrd_expands_files [of depth w g q "Some 0" repo_path target_fqn include_tests
            current_depth] that
    by (simp add: lf)
  from lf a b c d show ?thesis by blast
qed

lemma cycle_trace_zero:
  "snd (rrd_trace cycle_repo ''/r'' ''p.A'' 3 False (Some 0) None 1) =
     [(''p.A'', 1), (''p.B'', 2), (''p.A'', 3)]"
  by (simp add: rrd_trace_unfold rrd_trace_loop_step_Some [OF cycle_fqn_A]
        rrd_trace_loop_step_Some [OF cycle_fqn_B] limit_files_def cycle_frd_A cycle_frd_B)

theorem limit_zero_is_no_limit_witness:
  "((0 :: int) < 3 \<and> (1 :: int) < 3
     \<and> ''/r/B.java'' \<in> set (find_reverse_dependencies cycle_repo ''/r'' ''p.A'' False)
     \<and> file_fqn cycle_repo ''/r/B.java'' = Some ''p.B'')
   \<and> recursive_reverse_dependencies cycle_repo ''/r'' ''p.A'' 3 False (Some 0) None 1 =
       ([''/r/A.java'', ''/r/B.java''], {(''p.A'', 3), (''p.B'', 2), (''p.A'', 1)})
   \<and> ''/r/B.java'' \<in> set (fst (recursive_reverse_dependencies cycle_repo ''/r'' ''p.A'' 3 False
                                  (Some 0) None 1))
   \<and> (''p.B'', 1 + 1) \<in> set (snd (rrd_trace cycle_repo ''/r'' ''p.A'' 3 False (Some 0) None 1))
   \<and> snd (rrd_trace cycle_repo ''/r'' ''p.A'' 3 False (Some 0) None 1) =
       [(''p.A'', 1), (''p.B'', 2), (''p.A'', 3)]"
proof -
  have h: "(0 :: int) < 3" "(1 :: int) < 3"
    "''/r/B.java'' \<in> set (find_reverse_dependencies cycle_repo ''/r'' ''p.A'' False)"
    "file_fqn cycle_repo ''/r/B.java'' = Some ''p.B''"
    by (simp_all add: cycle_frd_A cycle_fqn_B)
  from limit_zero_is_no_limit [of "[]" cycle_repo "''/r''" "''p.A''" 3 False None 1 "[]" "[]"
         True "''/r/B.java''" "''p.B''"] h
  have "recursive_reverse_dependencies cycle_repo ''/r'' ''p.A'' 3 False (Some 0) None 1 =
          recursive_reverse_dependencies cycle_repo ''/r'' ''p.A'' 3 False None None 1"
    and "''/r/B.java'' \<in> set (fst (recursive_reverse_dependencies cycle_repo ''/r'' ''p.A'' 3
                                     False (Some 0) None 1))"
    and "(''p.B'', 1 + 1)
           \<in> set (snd (rrd_trace cycle_repo ''/r'' ''p.A'' 3 False (Some 0) None 1))"
    by blast+
  with h cycle_rrd cycle_trace_zero show ?thesis by simp
qed

text \<open>
  With a limit of 0 and a matching file that has no package declaration, the file is
  recorded and is not expanded: the traversal expands the target only.
\<close>

theorem limit_zero_not_all_expanded_counterexample:
  "find_reverse_dependencies nopkg_repo ''/r'' ''p.A'' False = [''/r/B.java'']
   \<and> fst (recursive_reverse_dependencies nopkg_repo ''/r'' ''p.A'' 3 False (Some 0) None 1) =
       [''/r/B.java'']
   \<and> snd (rrd_trace nopkg_repo ''/r'' ''p.A'' 3 False (Some 0) None 1) = [(''p.A'', 1)]"
  by (simp add: rrd_unfold rrd_trace_unfold rrd_loop_step_None [OF nopkg_fqn_B]
        rrd_trace_loop_step_None [OF nopkg_fqn_B] limit_files_def nopkg_frd_A
        py_list_set_remdups [OF nopkg_order])

section \<open>A read that fails\<close>







end
